theory Spec2Isabelle
  imports Complex_Main
begin

section \<open>JavaScript values used by the simulations\<close>

text \<open>
  The three programs (immigration, coexist, socialdx) share a handful of JavaScript
  idioms. They are modelled once:
  \<^item> a Number is a real number, an infinity or NaN (rounding and the sign of zero are
    not modelled: every number the programs compute is a small integer, a quotient of
    two such, or a draw of \<^verbatim>\<open>Math.random()\<close>);
  \<^item> the \<^verbatim>\<open>species\<close> field of a tree holds a string, \<^verbatim>\<open>null\<close> (a vacant site) or
    \<^verbatim>\<open>undefined\<close> (what indexing an empty array yields);
  \<^item> an object used as a dictionary is a map from property names to values; reading a
    missing property gives \<^verbatim>\<open>undefined\<close>, and a key that is not a string is
    converted to one (\<^verbatim>\<open>null\<close> becomes the name \<^verbatim>\<open>"null"\<close>). Properties
    inherited from \<^verbatim>\<open>Object.prototype\<close> are not modelled;
  \<^item> \<^verbatim>\<open>Math.random()\<close> reads the next element of a sequence of draws, which is passed
    through every function that calls it;
  \<^item> reading a property of \<^verbatim>\<open>undefined\<close> throws a TypeError, the only exception
    the programs can raise.
  Drawing on the canvas, writing to the DOM and the timeline log (switched on in the
  coexist program only, where it appends census values to arrays that exist) read the
  simulation state, never change it and never throw; they are left out. \<open>stepCount\<close>
  is a natural number (the programs never count beyond \<open>2\<^sup>5\<^sup>3\<close>).
\<close>

datatype jsnum = Num real | PosInf | NegInf | NaN

datatype species = Str string | Null | Undefined

datatype 'a result = Ok 'a | TypeError

type_synonym census = "string \<rightharpoonup> jsnum"

type_synonym rand = "nat \<Rightarrow> real"

fun js_add :: "jsnum \<Rightarrow> jsnum \<Rightarrow> jsnum" where
  "js_add (Num a) (Num b) = Num (a + b)"
| "js_add NaN _ = NaN"
| "js_add _ NaN = NaN"
| "js_add PosInf NegInf = NaN"
| "js_add NegInf PosInf = NaN"
| "js_add PosInf _ = PosInf"
| "js_add _ PosInf = PosInf"
| "js_add NegInf _ = NegInf"
| "js_add _ NegInf = NegInf"

fun js_neg :: "jsnum \<Rightarrow> jsnum" where
  "js_neg (Num a) = Num (- a)"
| "js_neg PosInf = NegInf"
| "js_neg NegInf = PosInf"
| "js_neg NaN = NaN"

definition js_inf :: "bool \<Rightarrow> jsnum" where
  "js_inf positive = (if positive then PosInf else NegInf)"

fun js_mul :: "jsnum \<Rightarrow> jsnum \<Rightarrow> jsnum" where
  "js_mul (Num a) (Num b) = Num (a * b)"
| "js_mul NaN _ = NaN"
| "js_mul _ NaN = NaN"
| "js_mul (Num a) PosInf = (if a = 0 then NaN else js_inf (0 < a))"
| "js_mul (Num a) NegInf = (if a = 0 then NaN else js_inf (a < 0))"
| "js_mul PosInf (Num b) = (if b = 0 then NaN else js_inf (0 < b))"
| "js_mul NegInf (Num b) = (if b = 0 then NaN else js_inf (b < 0))"
| "js_mul PosInf PosInf = PosInf"
| "js_mul NegInf NegInf = PosInf"
| "js_mul PosInf NegInf = NegInf"
| "js_mul NegInf PosInf = NegInf"

fun js_div :: "jsnum \<Rightarrow> jsnum \<Rightarrow> jsnum" where
  "js_div (Num a) (Num b) =
     (if b \<noteq> 0 then Num (a / b) else if a = 0 then NaN else js_inf (0 < a))"
| "js_div NaN _ = NaN"
| "js_div _ NaN = NaN"
| "js_div (Num a) _ = Num 0"
| "js_div PosInf (Num b) = js_inf (0 \<le> b)"
| "js_div NegInf (Num b) = js_inf (b < 0)"
| "js_div _ _ = NaN"

fun js_less :: "jsnum \<Rightarrow> jsnum \<Rightarrow> bool" where
  "js_less (Num a) (Num b) = (a < b)"
| "js_less NaN _ = False"
| "js_less _ NaN = False"
| "js_less _ NegInf = False"
| "js_less PosInf _ = False"
| "js_less _ _ = True"

text \<open>\<^verbatim>\<open>ToNumber\<close> of the value of a property: a missing property reads as
  \<^verbatim>\<open>undefined\<close>, which converts to NaN.\<close>

definition to_num :: "jsnum option \<Rightarrow> jsnum" where
  "to_num v = (case v of None \<Rightarrow> NaN | Some n \<Rightarrow> n)"

text \<open>The property name a species value is converted to when it indexes an object.\<close>

fun key :: "species \<Rightarrow> string" where
  "key (Str s) = s"
| "key Null = ''null''"
| "key Undefined = ''undefined''"

text \<open>Truthiness of a species value: \<^verbatim>\<open>null\<close>, \<^verbatim>\<open>undefined\<close> and the empty
  string are falsy.\<close>

fun truthy :: "species \<Rightarrow> bool" where
  "truthy (Str s) = (s \<noteq> [])"
| "truthy Null = False"
| "truthy Undefined = False"

text \<open>\<^verbatim>\<open>c[k] += 1\<close> and \<^verbatim>\<open>c[k] -= 1\<close> on a dictionary of counts.\<close>

definition increment :: "census \<Rightarrow> string \<Rightarrow> census" where
  "increment c k = c(k \<mapsto> js_add (to_num (c k)) (Num 1))"

definition decrement :: "census \<Rightarrow> string \<Rightarrow> census" where
  "decrement c k = c(k \<mapsto> js_add (to_num (c k)) (js_neg (Num 1)))"

text \<open>\<^verbatim>\<open>Math.random()\<close>: the next draw, and the rest of the sequence.\<close>

definition random :: "rand \<Rightarrow> real \<times> rand" where
  "random g = (g 0, \<lambda>n. g (Suc n))"

text \<open>\<^verbatim>\<open>Math.floor(Math.random() * n)\<close>.\<close>

definition randomIndex :: "nat \<Rightarrow> rand \<Rightarrow> int \<times> rand" where
  "randomIndex n g = (\<lfloor>fst (random g) * real n\<rfloor>, snd (random g))"

text \<open>\<^verbatim>\<open>arr[i]\<close>: \<^verbatim>\<open>undefined\<close> (here \<open>None\<close>) outside the array.\<close>

definition element :: "'a list \<Rightarrow> int \<Rightarrow> 'a option" where
  "element arr i = (if 0 \<le> i \<and> i < int (length arr) then Some (arr ! nat i) else None)"

definition randomElement :: "'a list \<Rightarrow> rand \<Rightarrow> 'a option \<times> rand" where
  "randomElement arr g =
     (element arr (fst (randomIndex (length arr) g)), snd (randomIndex (length arr) g))"

text \<open>\<^verbatim>\<open>randomElement(treeNames)\<close> as a species value.\<close>

definition randomSpecies :: "string list \<Rightarrow> rand \<Rightarrow> species \<times> rand" where
  "randomSpecies names g =
     ((case fst (randomElement names g) of None \<Rightarrow> Undefined | Some s \<Rightarrow> Str s),
      snd (randomElement names g))"

text \<open>The states of the start/stop button's state machine.\<close>

datatype run_state = Idle | Running | Paused | Done

section \<open>Trees, and the tree-making loop the programs share\<close>

text \<open>The fields of a tree that the simulation uses (the canvas coordinates
  \<^verbatim>\<open>x\<close>, \<^verbatim>\<open>y\<close>, \<^verbatim>\<open>r\<close> are left out).\<close>

record Tree =
  col :: nat
  row :: nat
  species :: species
  birthdate :: nat

definition square :: "nat \<Rightarrow> nat" where
  "square n = n * n"

text \<open>\<^verbatim>\<open>treeNames.forEach(sp => speciesCounts[sp] = 0)\<close>.\<close>

definition zeroCounts :: "string list \<Rightarrow> census" where
  "zeroCounts names = fold (\<lambda>sp c. c(sp \<mapsto> Num 0)) names Map.empty"

text \<open>
  The tree-making loop of \<^verbatim>\<open>createForest\<close> (immigration, coexist) and of the
  \<^verbatim>\<open>Forest\<close> constructor (socialdx); the three copies differ only in the call of
  the Tree constructor, the parameter \<open>newTree\<close>. \<^verbatim>\<open>treeVector[idx]\<close> is assigned
  for \<open>idx = 0, 1, ...\<close> in turn, so the array filled so far is the list
  \<open>treeVector\<close> and the assignment appends to it.
\<close>

function treeLoop ::
  "(nat \<Rightarrow> nat \<Rightarrow> nat \<Rightarrow> species \<Rightarrow> 'a Tree_scheme) \<Rightarrow> string list \<Rightarrow> nat \<Rightarrow> nat \<Rightarrow> nat \<Rightarrow> nat \<Rightarrow> nat
     \<Rightarrow> 'a Tree_scheme list \<Rightarrow> census \<Rightarrow> rand \<Rightarrow> 'a Tree_scheme list \<times> census \<times> rand" where
  "treeLoop newTree names treesPerRow n i c r treeVector speciesCounts g =
     (if i < n then
        (let t = newTree i c r (fst (randomSpecies names g));
             c1 = c + 1;
             c2 = (if c1 \<ge> treesPerRow then 0 else c1);
             r2 = (if c1 \<ge> treesPerRow then r + 1 else r)
         in treeLoop newTree names treesPerRow n (i + 1) c2 r2 (treeVector @ [t])
              (increment speciesCounts (key (species t))) (snd (randomSpecies names g)))
      else (treeVector, speciesCounts, g))"
  by pat_completeness auto
termination
  by (relation "measure (\<lambda>(newTree, names, treesPerRow, n, i, rest). n - i)") auto

declare treeLoop.simps [simp del]

definition createForest :: "string list \<Rightarrow> nat \<Rightarrow> nat \<Rightarrow> rand \<Rightarrow> Tree list \<times> census \<times> rand" where
  "createForest names clock treesPerRow g =
     treeLoop (\<lambda>i c r sp. \<lparr>col = c, row = r, species = sp, birthdate = clock\<rparr>)
       names treesPerRow (square treesPerRow) 0 0 0 [] (zeroCounts names) g"

text \<open>A \<^verbatim>\<open>for (let i = 0; i < n; i++) body()\<close> loop whose body may throw. An
  exception leaves the loop and the function around it; the result is then the
  exception alone.\<close>

function forLoop :: "nat \<Rightarrow> nat \<Rightarrow> ('s \<Rightarrow> 's result) \<Rightarrow> 's \<Rightarrow> 's result" where
  "forLoop i n body st =
     (if i < n then (case body st of TypeError \<Rightarrow> TypeError | Ok st' \<Rightarrow> forLoop (i + 1) n body st')
      else Ok st)"
  by pat_completeness auto
termination
  by (relation "measure (\<lambda>(i, n, rest). n - i)") auto

declare forLoop.simps [simp del]

text \<open>The same loop, for a body that may also never return.\<close>

function forLoopOpt :: "nat \<Rightarrow> nat \<Rightarrow> ('s \<Rightarrow> 's result option) \<Rightarrow> 's \<Rightarrow> 's result option" where
  "forLoopOpt i n body st =
     (if i < n then
        (case body st of
           None \<Rightarrow> None
         | Some TypeError \<Rightarrow> Some TypeError
         | Some (Ok st') \<Rightarrow> forLoopOpt (i + 1) n body st')
      else Some (Ok st))"
  by pat_completeness auto
termination
  by (relation "measure (\<lambda>(i, n, rest). n - i)") auto

declare forLoopOpt.simps [simp del]

section \<open>The globals of a simulation and its start/stop state machine\<close>

text \<open>\<open>timer\<close> tells whether a \<^verbatim>\<open>setInterval\<close> timer is calling
  \<^verbatim>\<open>runBatch\<close>.\<close>

record globals =
  state :: run_state
  stepCount :: nat
  timer :: bool

record drift = globals +
  theForest :: "Tree list"
  theCensus :: census

definition maxSteps :: nat where
  "maxSteps = 500000"

definition batchSize :: nat where
  "batchSize = 40"

text \<open>\<^verbatim>\<open>doStartStop\<close> of immigration and socialdx: no case of the switch
  matches another state.\<close>

definition doStartStop :: "'a globals_scheme \<Rightarrow> 'a globals_scheme" where
  "doStartStop st =
     (case state st of
        Idle \<Rightarrow> st\<lparr>state := Running, timer := True\<rparr>
      | Running \<Rightarrow> st\<lparr>state := Paused, timer := False\<rparr>
      | Paused \<Rightarrow> st\<lparr>state := Running, timer := True\<rparr>
      | Done \<Rightarrow> st)"

definition finished :: "'a globals_scheme \<Rightarrow> bool" where
  "finished st = (stepCount st mod maxSteps = 0)"

section \<open>Drift with immigration (the first script of immigration.js)\<close>

record immigration = drift +
  immigrationInterval :: nat

definition treeNames_immigration :: "string list" where
  "treeNames_immigration =
     [''aspen'', ''elm'', ''maple'', ''hickory'', ''hemlock'', ''birch'', ''beech'', ''oak'',
      ''pine'', ''chestnut'']"

definition immigrationIntervalList :: "nat list" where
  "immigrationIntervalList =
     [10, 20, 30, 40, 50, 60, 70, 80, 90, 100, 200, 300, 400, 500, 600, 700, 800, 900,
      1000, 2000, 3000, 4000, 5000, 6000, 7000, 8000, 9000, 10000]"

text \<open>\<^verbatim>\<open>stepCount % immigrationInterval === 0\<close>; the remainder by zero is NaN,
  which is not \<open>0\<close>.\<close>

definition immigrationDue :: "immigration \<Rightarrow> bool" where
  "immigrationDue st =
     (immigrationInterval st \<noteq> 0 \<and> stepCount st mod immigrationInterval st = 0)"

text \<open>The \<^verbatim>\<open>if\<close> of \<^verbatim>\<open>replaceTree\<close> that chooses the arriving species.\<close>

definition arrivingSpecies :: "immigration \<Rightarrow> rand \<Rightarrow> species result \<times> rand" where
  "arrivingSpecies st g =
     (if immigrationDue st then
        (Ok (fst (randomSpecies treeNames_immigration g)),
         snd (randomSpecies treeNames_immigration g))
      else
        ((case fst (randomElement (theForest st) g) of
            None \<Rightarrow> TypeError
          | Some t \<Rightarrow> Ok (species t)),
         snd (randomElement (theForest st) g)))"

definition replaceTree :: "immigration \<Rightarrow> rand \<Rightarrow> (immigration \<times> rand) result" where
  "replaceTree st g =
     (let d = fst (randomIndex (length (theForest st)) g);
          g1 = snd (randomIndex (length (theForest st)) g);
          g2 = snd (arrivingSpecies st g1)
      in case fst (arrivingSpecies st g1) of
           TypeError \<Rightarrow> TypeError
         | Ok arriving \<Rightarrow>
             (case element (theForest st) d of
                None \<Rightarrow> TypeError
              | Some departingTree \<Rightarrow>
                  Ok (st\<lparr>theCensus :=
                          increment (decrement (theCensus st) (key (species departingTree)))
                            (key arriving),
                        theForest := (theForest st)[nat d := departingTree\<lparr>species := arriving\<rparr>],
                        stepCount := stepCount st + 1\<rparr>,
                      g2)))"

definition runBatch :: "immigration \<Rightarrow> rand \<Rightarrow> (immigration \<times> rand) result" where
  "runBatch st g =
     (case forLoop 0 batchSize (\<lambda>(st, g). replaceTree st g) (st, g) of
        TypeError \<Rightarrow> TypeError
      | Ok (st', g') \<Rightarrow> Ok (if finished st' then doStartStop st' else st', g'))"

definition init :: "immigration \<Rightarrow> rand \<Rightarrow> immigration \<times> rand" where
  "init st g =
     (case createForest treeNames_immigration (stepCount st) 25 g of
        (treeVector, speciesCounts, g') \<Rightarrow>
          (st\<lparr>theForest := treeVector, theCensus := speciesCounts, state := Idle\<rparr>, g'))"

definition doReset :: "immigration \<Rightarrow> rand \<Rightarrow> immigration \<times> rand" where
  "doReset st g =
     init (st\<lparr>timer := (if state st = Running then False else timer st),
              state := Idle, stepCount := 0\<rparr>) g"

text \<open>The globals as the script declares them, before \<^verbatim>\<open>init()\<close> runs at
  the end of the page load.\<close>

definition pageLoad :: immigration where
  "pageLoad = \<lparr>state = Idle, stepCount = 0, timer = False, theForest = [],
     theCensus = Map.empty, immigrationInterval = 100\<rparr>"

section \<open>Plain drift\<close>

text \<open>
  Modelled from the spec: the replacement rule of the plain-drift program (ecodrift),
  whose source is not among the files. Section 4.2: pick a departing cell at random;
  pick the arriving species by sampling a second cell and taking its species; decrement
  the census of the departing species, increment that of the arriving one, relabel the
  departing cell, advance the clock by one.
\<close>

definition replaceTree_drift :: "'a drift_scheme \<Rightarrow> rand \<Rightarrow> ('a drift_scheme \<times> rand) result" where
  "replaceTree_drift st g =
     (let d = fst (randomIndex (length (theForest st)) g);
          g1 = snd (randomIndex (length (theForest st)) g);
          g2 = snd (randomElement (theForest st) g1)
      in case fst (randomElement (theForest st) g1) of
           None \<Rightarrow> TypeError
         | Some arrivingTree \<Rightarrow>
             (case element (theForest st) d of
                None \<Rightarrow> TypeError
              | Some departingTree \<Rightarrow>
                  Ok (st\<lparr>theCensus :=
                          increment (decrement (theCensus st) (key (species departingTree)))
                            (key (species arrivingTree)),
                        theForest :=
                          (theForest st)[nat d := departingTree\<lparr>species := species arrivingTree\<rparr>],
                        stepCount := stepCount st + 1\<rparr>,
                      g2)))"

section \<open>Two-species competition (the coexist program, the second script of immigration.js)\<close>

record coexist = drift +
  iron :: jsnum
  calcium :: jsnum
  buttonDisabled :: bool

definition treeNames_coexist :: "string list" where
  "treeNames_coexist = [''olive'', ''orange'']"

definition poachingCoef :: jsnum where
  "poachingCoef = Num (1 / 4)"

definition flipBiasedCoin :: "jsnum \<Rightarrow> rand \<Rightarrow> bool \<times> rand" where
  "flipBiasedCoin bias g = (js_less (Num (fst (random g))) bias, snd (random g))"

text \<open>\<^verbatim>\<open>bias = (arrivingTree.species === "olive") ? oliveFactor : orangeFactor\<close>.\<close>

definition bias :: "jsnum \<Rightarrow> jsnum \<Rightarrow> Tree \<Rightarrow> jsnum" where
  "bias oliveFactor orangeFactor arrivingTree =
     (if species arrivingTree = Str ''olive'' then oliveFactor else orangeFactor)"

text \<open>The \<^verbatim>\<open>do ... while (!flipBiasedCoin(bias))\<close> loop of \<^verbatim>\<open>replaceTree\<close>. It
  may run forever: then the value is \<open>None\<close>.\<close>

partial_function (option) arrivalLoop ::
  "Tree list \<Rightarrow> jsnum \<Rightarrow> jsnum \<Rightarrow> rand \<Rightarrow> (Tree \<times> rand) result option" where
  "arrivalLoop forest oliveFactor orangeFactor g =
     (case fst (randomElement forest g) of
        None \<Rightarrow> Some TypeError
      | Some arrivingTree \<Rightarrow>
          (if fst (flipBiasedCoin (bias oliveFactor orangeFactor arrivingTree)
                 (snd (randomElement forest g)))
           then Some (Ok (arrivingTree,
                  snd (flipBiasedCoin (bias oliveFactor orangeFactor arrivingTree)
                    (snd (randomElement forest g)))))
           else arrivalLoop forest oliveFactor orangeFactor
                  (snd (flipBiasedCoin (bias oliveFactor orangeFactor arrivingTree)
                    (snd (randomElement forest g))))))"

definition oliveFactor :: "coexist \<Rightarrow> jsnum" where
  "oliveFactor st =
     js_div (iron st)
       (js_add (to_num (theCensus st ''olive''))
          (js_mul poachingCoef (to_num (theCensus st ''orange''))))"

definition orangeFactor :: "coexist \<Rightarrow> jsnum" where
  "orangeFactor st =
     js_div (calcium st)
       (js_add (to_num (theCensus st ''orange''))
          (js_mul poachingCoef (to_num (theCensus st ''olive''))))"

definition replaceTree_coexist :: "coexist \<Rightarrow> rand \<Rightarrow> (coexist \<times> rand) result option" where
  "replaceTree_coexist st g =
     (let d = fst (randomIndex (length (theForest st)) g);
          g1 = snd (randomIndex (length (theForest st)) g)
      in case arrivalLoop (theForest st) (oliveFactor st) (orangeFactor st) g1 of
           None \<Rightarrow> None
         | Some TypeError \<Rightarrow> Some TypeError
         | Some (Ok (arrivingTree, g2)) \<Rightarrow>
             (case element (theForest st) d of
                None \<Rightarrow> Some TypeError
              | Some departingTree \<Rightarrow>
                  Some (Ok (st\<lparr>theCensus :=
                          increment (decrement (theCensus st) (key (species departingTree)))
                            (key (species arrivingTree)),
                        theForest :=
                          (theForest st)[nat d := departingTree\<lparr>species := species arrivingTree\<rparr>],
                        stepCount := stepCount st + 1\<rparr>,
                      g2))))"

definition finished_coexist :: "coexist \<Rightarrow> bool" where
  "finished_coexist st =
     (stepCount st mod 500000 = 0 \<or> theCensus st ''olive'' = Some (Num 0)
        \<or> theCensus st ''orange'' = Some (Num 0))"

definition doStartStop_coexist :: "coexist \<Rightarrow> coexist" where
  "doStartStop_coexist st =
     (case state st of
        Idle \<Rightarrow> st\<lparr>state := Running, timer := True\<rparr>
      | Running \<Rightarrow> st\<lparr>state := Paused, timer := False\<rparr>
      | Paused \<Rightarrow> st\<lparr>state := Running, timer := True\<rparr>
      | Done \<Rightarrow> st\<lparr>timer := False, buttonDisabled := True\<rparr>)"

text \<open>What \<^verbatim>\<open>runBatch\<close> does after its loop.\<close>

definition batchEnd_coexist :: "coexist \<Rightarrow> coexist" where
  "batchEnd_coexist st =
     (if finished_coexist st then
        doStartStop_coexist (st\<lparr>state := (if stepCount st mod 500000 = 0 then Running else Done)\<rparr>)
      else st)"

definition runBatch_coexist :: "coexist \<Rightarrow> rand \<Rightarrow> (coexist \<times> rand) result option" where
  "runBatch_coexist st g =
     (case forLoopOpt 0 batchSize (\<lambda>(st, g). replaceTree_coexist st g) (st, g) of
        None \<Rightarrow> None
      | Some TypeError \<Rightarrow> Some TypeError
      | Some (Ok (st', g')) \<Rightarrow> Some (Ok (batchEnd_coexist st', g')))"

definition init_coexist :: "coexist \<Rightarrow> rand \<Rightarrow> coexist \<times> rand" where
  "init_coexist st g =
     (case createForest treeNames_coexist (stepCount st) 25 g of
        (treeVector, speciesCounts, g') \<Rightarrow>
          (st\<lparr>theForest := treeVector, theCensus := speciesCounts, state := Idle,
              iron := Num 50, calcium := Num 50\<rparr>, g'))"

definition doReset_coexist :: "coexist \<Rightarrow> rand \<Rightarrow> coexist \<times> rand" where
  "doReset_coexist st g =
     init_coexist (st\<lparr>timer := (if state st = Running then False else timer st),
              state := Idle, stepCount := 0, buttonDisabled := False\<rparr>) g"

section \<open>Neighbor exclusion (socialdx.js)\<close>

text \<open>A tree refers to its neighbors by their index in the array of trees: the
  array holds the same Tree objects for the whole run, and only their fields change.
  An index outside the array stands for \<^verbatim>\<open>undefined\<close>.\<close>

record STree = Tree +
  idx :: nat
  neighborTrees :: "int list"
  neighborSpecies :: "string set"

record Forest =
  forest_s :: nat
  forest_N :: nat
  trees :: "STree list"
  treeNames :: "string list"
  census :: census

record socialdx = globals +
  theForest_sdx :: Forest

text \<open>The keys of the color maps of the script, the species sets a forest can be
  built with; \<^verbatim>\<open>init\<close> uses the one of ten species.\<close>

definition treeColorMap10 :: "string list" where
  "treeColorMap10 =
     [''aspen'', ''elm'', ''maple'', ''hickory'', ''hemlock'', ''birch'', ''beech'', ''oak'',
      ''pine'', ''chestnut'']"

definition treeColorMap12 :: "string list" where
  "treeColorMap12 =
     [''aspen'', ''elm'', ''maple'', ''hickory'', ''hemlock'', ''birch'', ''beech'', ''oak'',
      ''pine'', ''chestnut'', ''poplar'', ''spruce'']"

definition treeColorMap9 :: "string list" where
  "treeColorMap9 =
     [''aspen'', ''elm'', ''maple'', ''hickory'', ''hemlock'', ''birch'', ''beech'', ''oak'',
      ''pine'']"

definition treeColorMap8 :: "string list" where
  "treeColorMap8 =
     [''aspen'', ''elm'', ''maple'', ''hickory'', ''hemlock'', ''birch'', ''beech'', ''oak'']"

definition treeColorMap4 :: "string list" where
  "treeColorMap4 = [''aspen'', ''hemlock'', ''beech'', ''oak'']"

definition modAdd :: "int \<Rightarrow> int \<Rightarrow> int \<Rightarrow> int" where
  "modAdd a b m = (let s = a + b in if s < 0 then s + m else if s \<ge> m then s - m else s)"

definition colRowToIndex :: "int \<Rightarrow> int \<Rightarrow> int \<Rightarrow> int" where
  "colRowToIndex c r s = c + (r * s)"

text \<open>\<^verbatim>\<open>listNeighbors\<close>: the two nested loops push nine references, \<open>h\<close> outer
  and \<open>v\<close> inner.\<close>

definition listNeighbors :: "nat \<Rightarrow> STree \<Rightarrow> STree" where
  "listNeighbors s t =
     t\<lparr>neighborTrees := neighborTrees t @
          concat (map (\<lambda>h. map (\<lambda>v.
              colRowToIndex (modAdd (int (col t)) h (int s)) (modAdd (int (row t)) v (int s)) (int s))
            [-1, 0, 1]) [-1, 0, 1])\<rparr>"

text \<open>The loop of \<^verbatim>\<open>listNeighborSpecies\<close> over \<^verbatim>\<open>this.neighborTrees\<close>.\<close>

fun neighborLoop :: "STree list \<Rightarrow> int list \<Rightarrow> string set \<Rightarrow> string set result" where
  "neighborLoop ts [] acc = Ok acc"
| "neighborLoop ts (j # js) acc =
     (case element ts j of
        None \<Rightarrow> TypeError
      | Some t \<Rightarrow>
          neighborLoop ts js (if truthy (species t) then insert (key (species t)) acc else acc))"

definition listNeighborSpecies :: "Forest \<Rightarrow> STree \<Rightarrow> string set result" where
  "listNeighborSpecies f t = neighborLoop (trees f) (neighborTrees t) {}"

text \<open>The constructor of \<^verbatim>\<open>Forest\<close>; \<open>names\<close> are the keys of the color map.\<close>

definition newForest :: "nat \<Rightarrow> string list \<Rightarrow> nat \<Rightarrow> rand \<Rightarrow> Forest \<times> rand" where
  "newForest gridSize names clock g =
     (case treeLoop
             (\<lambda>i c r sp. \<lparr>col = c, row = r, species = sp, birthdate = clock, idx = i,
                 neighborTrees = [], neighborSpecies = {}\<rparr>)
             names gridSize (square gridSize) 0 0 0 [] (zeroCounts names) g of
        (treeVector, speciesCounts, g') \<Rightarrow>
          (\<lparr>forest_s = gridSize, forest_N = square gridSize,
            trees = map (listNeighbors gridSize) treeVector,
            treeNames = names, census = speciesCounts\<rparr>, g'))"

text \<open>The candidate scan of \<^verbatim>\<open>replaceTree\<close>, from step \<open>i\<close> on.\<close>

function scan :: "Forest \<Rightarrow> string set \<Rightarrow> int \<Rightarrow> nat \<Rightarrow> species result" where
  "scan f ns start i =
     (if i < forest_N f then
        (case element (trees f) (modAdd start (int i) (int (forest_N f))) of
           None \<Rightarrow> TypeError
         | Some candidate \<Rightarrow>
             if truthy (species candidate) \<and> key (species candidate) \<notin> ns
             then Ok (species candidate)
             else scan f ns start (i + 1))
      else Ok Null)"
  by pat_completeness auto
termination
  by (relation "measure (\<lambda>(f, ns, start, i). forest_N f - i)") auto

declare scan.simps [simp del]

definition replaceTree_sdx :: "socialdx \<Rightarrow> rand \<Rightarrow> (socialdx \<times> rand) result" where
  "replaceTree_sdx st g =
     (let f = theForest_sdx st;
          d = fst (randomIndex (length (trees f)) g);
          g1 = snd (randomIndex (length (trees f)) g)
      in case element (trees f) d of
           None \<Rightarrow> TypeError
         | Some departingTree \<Rightarrow>
             (case listNeighborSpecies f departingTree of
                TypeError \<Rightarrow> TypeError
              | Ok ns \<Rightarrow>
                  (case scan f ns (fst (randomIndex (forest_N f) g1)) 0 of
                     TypeError \<Rightarrow> TypeError
                   | Ok replacementSpecies \<Rightarrow>
                       Ok (st\<lparr>theForest_sdx :=
                              f\<lparr>census :=
                                  (let c = decrement (census f) (key (species departingTree))
                                   in if truthy replacementSpecies
                                      then increment c (key replacementSpecies) else c),
                                trees := (trees f)[nat d :=
                                  departingTree\<lparr>neighborSpecies := ns,
                                    species := replacementSpecies\<rparr>]\<rparr>,
                             stepCount := stepCount st + 1\<rparr>,
                           snd (randomIndex (forest_N f) g1)))))"

definition runBatch_sdx :: "socialdx \<Rightarrow> rand \<Rightarrow> (socialdx \<times> rand) result" where
  "runBatch_sdx st g =
     (case forLoop 0 batchSize (\<lambda>(st, g). replaceTree_sdx st g) (st, g) of
        TypeError \<Rightarrow> TypeError
      | Ok (st', g') \<Rightarrow> Ok (if finished st' then doStartStop st' else st', g'))"

definition init_sdx :: "socialdx \<Rightarrow> rand \<Rightarrow> socialdx \<times> rand" where
  "init_sdx st g =
     (case newForest 25 treeColorMap10 (stepCount st) g of
        (f, g') \<Rightarrow> (st\<lparr>theForest_sdx := f, state := Idle\<rparr>, g'))"

section \<open>Notions the properties are stated with\<close>

text \<open>The number of trees of a species, and the number of vacant sites.\<close>

definition population :: "'a Tree_scheme list \<Rightarrow> string \<Rightarrow> nat" where
  "population ts sp = length (filter (\<lambda>t. species t = Str sp) ts)"

definition vacancies :: "'a Tree_scheme list \<Rightarrow> nat" where
  "vacancies ts = length (filter (\<lambda>t. species t = Null) ts)"

text \<open>The sum of the census counts of all species, in JavaScript arithmetic.\<close>

definition censusTotal :: "string list \<Rightarrow> census \<Rightarrow> jsnum" where
  "censusTotal names c = foldr (\<lambda>sp acc. js_add (to_num (c sp)) acc) names (Num 0)"

text \<open>Every draw of \<^verbatim>\<open>Math.random()\<close> lies in \<open>[0, 1)\<close>.\<close>

definition unit_draws :: "rand \<Rightarrow> bool" where
  "unit_draws g = (\<forall>n. 0 \<le> g n \<and> g n < 1)"

text \<open>The census maps each species of the set to the number of trees holding it.\<close>

definition counted :: "string list \<Rightarrow> 'a Tree_scheme list \<Rightarrow> census \<Rightarrow> bool" where
  "counted names ts c = (\<forall>sp \<in> set names. c sp = Some (Num (real (population ts sp))))"

text \<open>The census balances a tree array of \<open>n\<close> sites: the counts of all species and
  the number of vacant sites add up to \<open>n\<close>.\<close>

definition balanced :: "string list \<Rightarrow> 'a Tree_scheme list \<Rightarrow> census \<Rightarrow> nat \<Rightarrow> bool" where
  "balanced names ts c n =
     (length ts = n \<and> js_add (censusTotal names c) (Num (real (vacancies ts))) = Num (real n))"

text \<open>Every tree holds a species of the set.\<close>

definition labelled :: "string list \<Rightarrow> 'a Tree_scheme list \<Rightarrow> bool" where
  "labelled names ts = (\<forall>t \<in> set ts. \<exists>sp \<in> set names. species t = Str sp)"

text \<open>The first replacement from a state is an immigration: it succeeds, and
  the departing tree (chosen by the first draw) receives the species of the set that
  the second draw selects.\<close>

definition firstStepImmigrates :: "immigration \<times> rand \<Rightarrow> bool" where
  "firstStepImmigrates p =
     (case replaceTree (fst p) (snd p) of
        TypeError \<Rightarrow> False
      | Ok (st', g') \<Rightarrow>
          species (theForest st' ! nat \<lfloor>snd p 0 * real (length (theForest (fst p)))\<rfloor>) =
            Str (treeNames_immigration ! nat \<lfloor>snd p 1 * real (length treeNames_immigration)\<rfloor>))"

text \<open>A small immigration state for examples: two trees, at step 100.\<close>

definition twoTrees :: immigration where
  "twoTrees = \<lparr>state = Running, stepCount = 100, timer = True,
     theForest = [\<lparr>col = 0, row = 0, species = Str ''oak'', birthdate = 0\<rparr>,
                  \<lparr>col = 1, row = 0, species = Str ''elm'', birthdate = 0\<rparr>],
     theCensus = (zeroCounts treeNames_immigration)(''oak'' \<mapsto> Num 1, ''elm'' \<mapsto> Num 1),
     immigrationInterval = 100\<rparr>"

text \<open>
  The attempts of the rejection loop. Entered with the draws \<open>h\<close>, attempt \<open>j\<close> (from 0)
  takes draw \<open>2j\<close> for its candidate tree and draw \<open>2j + 1\<close> for its coin; it succeeds
  when the coin is below the factor of the candidate's species.
\<close>

definition attempt :: "Tree list \<Rightarrow> jsnum \<Rightarrow> jsnum \<Rightarrow> rand \<Rightarrow> nat \<Rightarrow> bool" where
  "attempt forest fo fr h j =
     js_less (Num (h (2 * j + 1)))
       (bias fo fr (forest ! nat \<lfloor>h (2 * j) * real (length forest)\<rfloor>))"

text \<open>In \<^verbatim>\<open>replaceTree\<close> the loop is entered after the draw for the departing
  tree.\<close>

definition candidate :: "coexist \<Rightarrow> rand \<Rightarrow> nat \<Rightarrow> Tree" where
  "candidate st g j = theForest st ! nat \<lfloor>g (2 * j + 1) * real (length (theForest st))\<rfloor>"

definition accepted :: "coexist \<Rightarrow> rand \<Rightarrow> nat \<Rightarrow> bool" where
  "accepted st g j =
     js_less (Num (g (2 * j + 2))) (bias (oliveFactor st) (orangeFactor st) (candidate st g j))"

text \<open>A state of the coexist program one batch before the step ceiling, with a single
  olive tree left, and draws under which that tree dies in the first step of the batch.\<close>

definition lastOlive :: coexist where
  "lastOlive = \<lparr>state = Running, stepCount = 499960, timer = True,
     theForest = map (\<lambda>i. \<lparr>col = i mod 25, row = i div 25,
         species = Str (if i = 0 then ''olive'' else ''orange''), birthdate = 0\<rparr>) [0..<625],
     theCensus = [''olive'' \<mapsto> Num 1, ''orange'' \<mapsto> Num 624],
     iron = Num 50, calcium = Num 50, buttonDisabled = False\<rparr>"

definition lastOliveDraws :: rand where
  "lastOliveDraws n = (if n = 1 then 1 / 400 else 0)"

text \<open>Draws under which the first candidate of a replacement is rejected (its coin is
  \<open>9/10\<close>) and the second is accepted.\<close>

definition rejectOnce :: rand where
  "rejectOnce n = (if n = 2 then 9 / 10 else 0)"

text \<open>
  The torus of the socialdx program. Site \<open>i\<close> of an \<open>s \<times> s\<close> grid is in column
  \<open>i mod s\<close> and row \<open>i div s\<close>; \<open>torus s i h v\<close> is the site \<open>h\<close> columns and \<open>v\<close> rows
  away, wrapping around at the edges. The neighborhood of a site is the nine sites with
  \<open>h\<close> and \<open>v\<close> in \<open>{-1, 0, 1}\<close>, itself included.
\<close>

definition torus :: "nat \<Rightarrow> nat \<Rightarrow> int \<Rightarrow> int \<Rightarrow> nat" where
  "torus s i h v =
     nat ((int (i mod s) + h) mod int s + ((int (i div s) + v) mod int s) * int s)"

definition neighbors :: "nat \<Rightarrow> nat \<Rightarrow> nat list" where
  "neighbors s i = concat (map (\<lambda>h. map (\<lambda>v. torus s i h v) [-1, 0, 1]) [-1, 0, 1])"

text \<open>The species present in the neighborhood of site \<open>d\<close>.\<close>

definition neighborhoodSpecies :: "Forest \<Rightarrow> nat \<Rightarrow> string set" where
  "neighborhoodSpecies f d =
     set (map (\<lambda>j. key (species (trees f ! j)))
       (filter (\<lambda>j. species (trees f ! j) \<noteq> Null) (neighbors (forest_s f) d)))"

text \<open>The \<open>k\<close>-th site of the circular scan that starts at site \<open>start\<close>, and
  whether the tree there is eligible to replace the tree at site \<open>d\<close>: it is not
  vacant and its species is not present in the neighborhood of \<open>d\<close>.\<close>

definition scanned :: "Forest \<Rightarrow> nat \<Rightarrow> nat \<Rightarrow> STree" where
  "scanned f start k = trees f ! ((start + k) mod forest_N f)"

definition eligible :: "Forest \<Rightarrow> nat \<Rightarrow> nat \<Rightarrow> nat \<Rightarrow> bool" where
  "eligible f d start k =
     (species (scanned f start k) \<noteq> Null
      \<and> key (species (scanned f start k)) \<notin> neighborhoodSpecies f d)"

text \<open>The arriving species as the specification words it: the species of the first
  eligible tree of the scan, or none when the scan of all \<open>N\<close> sites finds no eligible
  tree.\<close>

definition arrival :: "Forest \<Rightarrow> nat \<Rightarrow> nat \<Rightarrow> species" where
  "arrival f d start =
     (case find (eligible f d start) [0..<forest_N f] of
        None \<Rightarrow> Null
      | Some k \<Rightarrow> species (scanned f start k))"

text \<open>The forest after the tree at site \<open>d\<close> has been replaced, the scan starting at
  site \<open>start\<close>: the site takes the arriving species (or becomes vacant), the census
  loses one tree of the departing species and gains one of the arriving species, if
  there is one.\<close>

definition replaced :: "Forest \<Rightarrow> nat \<Rightarrow> nat \<Rightarrow> Forest" where
  "replaced f d start =
     f\<lparr>census :=
         (if arrival f d start = Null then decrement (census f) (key (species (trees f ! d)))
          else increment (decrement (census f) (key (species (trees f ! d))))
                 (key (arrival f d start))),
       trees := (trees f)[d := (trees f ! d)\<lparr>neighborSpecies := neighborhoodSpecies f d,
                   species := arrival f d start\<rparr>]\<rparr>"

text \<open>Species names: distinct (they are the keys of an object), at least one, none
  of them the empty string (which is falsy) or the string \<^verbatim>\<open>"null"\<close> (the property
  name that \<^verbatim>\<open>null\<close> is converted to).\<close>

definition validNames :: "string list \<Rightarrow> bool" where
  "validNames names =
     (distinct names \<and> names \<noteq> [] \<and> [] \<notin> set names \<and> ''null'' \<notin> set names)"

text \<open>What the constructor establishes and every replacement keeps: the grid is
  square, each tree knows its column, its row and its nine neighbors on the torus,
  each site is vacant or holds a species of the set, and the census counts the trees
  of each species.\<close>

definition wellFormed :: "string list \<Rightarrow> Forest \<Rightarrow> bool" where
  "wellFormed names f =
     (0 < forest_s f \<and> forest_N f = forest_s f * forest_s f \<and> length (trees f) = forest_N f
      \<and> (\<forall>i < length (trees f).
            col (trees f ! i) = i mod forest_s f \<and> row (trees f ! i) = i div forest_s f
          \<and> neighborTrees (trees f ! i) = map int (neighbors (forest_s f) i))
      \<and> (\<forall>t \<in> set (trees f). species t = Null \<or> (\<exists>sp \<in> set names. species t = Str sp))
      \<and> counted names (trees f) (census f))"

text \<open>Two socialdx states for examples: a 3 by 3 forest of one species, and a 4 by 4
  forest planted with the draws \<open>stripes\<close>, which give each column one of four
  species.\<close>

definition stripes :: rand where
  "stripes n = real (n mod 4) / 4 + 1 / 8"

definition threeByThree :: socialdx where
  "threeByThree = \<lparr>state = Running, stepCount = 0, timer = True,
     theForest_sdx = fst (newForest 3 treeColorMap4 0 (\<lambda>n. 1 / 2))\<rparr>"

definition fourByFour :: socialdx where
  "fourByFour = \<lparr>state = Running, stepCount = 0, timer = True,
     theForest_sdx = fst (newForest 4 treeColorMap4 0 stripes)\<rparr>"

text \<open>A 3 by 3 forest of exactly two species, planted with the draws \<open>alternate\<close>,
  which give the sites olive and orange in turn: every tree has both species among its
  eight neighbors.\<close>

definition alternate :: rand where
  "alternate n = real (n mod 2) / 2 + 1 / 4"

definition twoSpecies :: socialdx where
  "twoSpecies = \<lparr>state = Running, stepCount = 0, timer = True,
     theForest_sdx = fst (newForest 3 treeNames_coexist 0 alternate)\<rparr>"

text \<open>The 3 by 3 forest after the tree at its central site has been replaced: that
  site is vacant.\<close>

definition vacated :: socialdx where
  "vacated = threeByThree\<lparr>theForest_sdx := replaced (theForest_sdx threeByThree) 4 4,
     stepCount := 1\<rparr>"

text \<open>Freshly constructed states for examples: an immigration state with a 2 by 2
  forest and a coexist state with a single tree, planted with all draws \<open>1/2\<close>.\<close>

definition sapling :: immigration where
  "sapling = pageLoad\<lparr>theForest := fst (createForest treeNames_immigration 0 2 (\<lambda>n. 1 / 2)),
     theCensus := fst (snd (createForest treeNames_immigration 0 2 (\<lambda>n. 1 / 2)))\<rparr>"

definition sapling_coexist :: coexist where
  "sapling_coexist = \<lparr>state = Idle, stepCount = 0, timer = False,
     theForest = fst (createForest treeNames_coexist 0 1 (\<lambda>n. 1 / 2)),
     theCensus = fst (snd (createForest treeNames_coexist 0 1 (\<lambda>n. 1 / 2))),
     iron = Num 50, calcium = Num 50, buttonDisabled = False\<rparr>"

section \<open>Facts about the shared operations\<close>

lemma unit_draws_random: "unit_draws g \<Longrightarrow> unit_draws (snd (random g))"
  by (simp add: unit_draws_def random_def)

lemma randomIndex_range:
  assumes "unit_draws g" "0 < n"
  shows "0 \<le> fst (randomIndex n g) \<and> fst (randomIndex n g) < int n"
proof -
  have u: "0 \<le> g 0" "g 0 < 1" using assms(1) by (simp_all add: unit_draws_def)
  have "g 0 * real n < real n" using u assms(2) by simp
  then have "\<lfloor>g 0 * real n\<rfloor> < int n" by (simp add: floor_less_iff)
  moreover have "0 \<le> \<lfloor>g 0 * real n\<rfloor>" using u by simp
  ultimately show ?thesis by (simp add: randomIndex_def random_def)
qed

lemma unit_draws_randomIndex: "unit_draws g \<Longrightarrow> unit_draws (snd (randomIndex n g))"
  by (simp add: randomIndex_def unit_draws_random)

lemma unit_draws_randomElement: "unit_draws g \<Longrightarrow> unit_draws (snd (randomElement arr g))"
  by (simp add: randomElement_def unit_draws_randomIndex)

lemma unit_draws_randomSpecies: "unit_draws g \<Longrightarrow> unit_draws (snd (randomSpecies names g))"
  by (simp add: randomSpecies_def unit_draws_randomElement)

lemma randomElement_member:
  assumes "unit_draws g" "arr \<noteq> []"
  shows "\<exists>x \<in> set arr. fst (randomElement arr g) = Some x"
  using randomIndex_range [OF assms(1), of "length arr"] assms(2)
  by (auto simp: randomElement_def element_def)

lemma randomSpecies_member:
  assumes "unit_draws g" "names \<noteq> []"
  shows "\<exists>sp \<in> set names. fst (randomSpecies names g) = Str sp"
  using randomElement_member [OF assms] by (auto simp: randomSpecies_def)

lemma population_append:
  "population (ts @ [t]) sp = population ts sp + (if species t = Str sp then 1 else 0)"
  by (simp add: population_def)

lemma vacancies_append:
  "vacancies (ts @ [t]) = vacancies ts + (if species t = Null then 1 else 0)"
  by (simp add: vacancies_def)

lemma zeroCounts_fold:
  "fold (\<lambda>sp c. c(sp \<mapsto> Num 0)) names c0 sp = (if sp \<in> set names then Some (Num 0) else c0 sp)"
  by (induction names arbitrary: c0) auto

lemma zeroCounts_apply:
  "zeroCounts names sp = (if sp \<in> set names then Some (Num 0) else None)"
  by (simp add: zeroCounts_def zeroCounts_fold)

lemma counted_increment:
  assumes "counted names ts c" "species t = Str x"
  shows "counted names (ts @ [t]) (increment c (key (species t)))"
  unfolding counted_def
proof
  fix sp assume sp: "sp \<in> set names"
  then have c: "c sp = Some (Num (real (population ts sp)))"
    using assms by (simp add: counted_def)
  show "increment c (key (species t)) sp = Some (Num (real (population (ts @ [t]) sp)))"
  proof (cases "species t = Str sp")
    case True
    then show ?thesis using c by (simp add: increment_def to_num_def population_append)
  next
    case False
    then show ?thesis using c assms(2)
      by (simp add: increment_def population_append)
  qed
qed

lemma treeLoop_inv:
  assumes "unit_draws g" "names \<noteq> []" "\<And>i c r sp. species (newTree i c r sp) = sp"
    "counted names tv c0" "labelled names tv" "length tv = i" "i \<le> n"
    "treeLoop newTree names tpr n i c r tv c0 g = (tv', c', g')"
  shows "length tv' = n \<and> labelled names tv' \<and> counted names tv' c' \<and> unit_draws g'"
  using assms
proof (induction newTree names tpr n i c r tv c0 g rule: treeLoop.induct)
  case (1 newTree names tpr n i c r tv c0 g)
  show ?case
  proof (cases "i < n")
    case False
    then show ?thesis using "1.prems" by (simp add: treeLoop.simps)
  next
    case True
    define t where "t = newTree i c r (fst (randomSpecies names g))"
    obtain x where x: "x \<in> set names" "fst (randomSpecies names g) = Str x"
      using randomSpecies_member [OF "1.prems"(1,2)] by blast
    have st: "species t = Str x" using x "1.prems"(3) by (simp add: t_def)
    have a: "counted names (tv @ [t]) (increment c0 (key (species t)))"
      using counted_increment [OF "1.prems"(4) st] .
    have b: "labelled names (tv @ [t])"
      using "1.prems"(5) st x(1) by (auto simp: labelled_def)
    have eq: "treeLoop newTree names tpr n (i + 1) (if c + 1 \<ge> tpr then 0 else c + 1)
        (if c + 1 \<ge> tpr then r + 1 else r) (tv @ [t]) (increment c0 (key (species t)))
        (snd (randomSpecies names g)) = (tv', c', g')"
      using "1.prems"(8) True by (subst (asm) treeLoop.simps) (auto simp add: Let_def t_def split: if_splits)
    show ?thesis
      by (rule "1.IH" [OF True t_def refl refl refl unit_draws_randomSpecies [OF "1.prems"(1)]
            "1.prems"(2) "1.prems"(3) a b _ _ eq])
         (use "1.prems"(6) True in simp_all)
  qed
qed

lemma holds_sum:
  assumes "finite S"
  shows "(\<Sum>sp\<in>S. if v = Str sp then 1 else 0) = (if \<exists>sp\<in>S. v = Str sp then 1 else (0::nat))"
proof (cases "\<exists>sp\<in>S. v = Str sp")
  case True
  then obtain x where x: "x \<in> S" "v = Str x" by blast
  have "(\<Sum>sp\<in>S. if v = Str sp then 1 else 0) = (\<Sum>sp\<in>S. if sp = x then 1 else (0::nat))"
    using x by (intro sum.cong) auto
  then show ?thesis using assms x by (simp add: sum.delta')
next
  case False
  then show ?thesis by (auto intro: sum.neutral)
qed

lemma population_Cons:
  "population (t # ts) sp = (if species t = Str sp then 1 else 0) + population ts sp"
  by (simp add: population_def)

lemma vacancies_Cons:
  "vacancies (t # ts) = (if species t = Null then 1 else 0) + vacancies ts"
  by (simp add: vacancies_def)

lemma population_sum:
  assumes "\<forall>t \<in> set ts. species t = Null \<or> (\<exists>sp \<in> set names. species t = Str sp)"
  shows "(\<Sum>sp\<in>set names. population ts sp) + vacancies ts = length ts"
  using assms
proof (induction ts)
  case Nil
  then show ?case by (simp add: population_def vacancies_def)
next
  case (Cons t ts)
  have "(\<Sum>sp\<in>set names. population (t # ts) sp) =
      (\<Sum>sp\<in>set names. if species t = Str sp then 1 else 0) + (\<Sum>sp\<in>set names. population ts sp)"
    by (simp add: population_Cons sum.distrib)
  also have "(\<Sum>sp\<in>set names. if species t = Str sp then 1 else 0) =
      (if \<exists>sp\<in>set names. species t = Str sp then 1 else (0::nat))"
    by (rule holds_sum) simp
  finally have "(\<Sum>sp\<in>set names. population (t # ts) sp) + vacancies (t # ts) =
      (if \<exists>sp\<in>set names. species t = Str sp then 1 else 0) + (if species t = Null then 1 else 0)
       + ((\<Sum>sp\<in>set names. population ts sp) + vacancies ts)"
    by (simp add: vacancies_Cons)
  moreover have "(if \<exists>sp\<in>set names. species t = Str sp then 1 else 0) + (if species t = Null then 1 else 0) = (1::nat)"
    using Cons.prems by auto
  ultimately show ?case using Cons by simp
qed

lemma labelled_vacancies: "labelled names ts \<Longrightarrow> vacancies ts = 0"
  by (auto simp: labelled_def vacancies_def filter_empty_conv)

lemma censusTotal_sum_list:
  assumes "\<forall>sp \<in> set names. c sp = Some (Num (f sp))"
  shows "censusTotal names c = Num (sum_list (map f names))"
  using assms by (induction names) (simp_all add: censusTotal_def to_num_def)

lemma censusTotal_counted:
  assumes "distinct names" "counted names ts c"
  shows "censusTotal names c = Num (real (\<Sum>sp\<in>set names. population ts sp))"
proof -
  have "censusTotal names c = Num (sum_list (map (\<lambda>sp. real (population ts sp)) names))"
    using assms(2) by (intro censusTotal_sum_list) (simp add: counted_def)
  then show ?thesis using assms(1) by (simp add: sum_list_distinct_conv_sum_set)
qed

lemma counted_empty: "counted names [] (zeroCounts names)"
  by (simp add: counted_def zeroCounts_apply population_def)

section \<open>Grid construction\<close>

lemma population_map:
  assumes "\<And>t. species (h t) = species t"
  shows "population (map h ts) sp = population ts sp"
  by (induction ts) (simp_all add: population_def assms)

lemma vacancies_map:
  assumes "\<And>t. species (h t) = species t"
  shows "vacancies (map h ts) = vacancies ts"
  by (induction ts) (simp_all add: vacancies_def assms)

lemma species_listNeighbors: "species (listNeighbors s t) = species t"
  by (simp add: listNeighbors_def)

lemma createForest_inv:
  assumes "names \<noteq> []" "unit_draws g" "createForest names clock s g = (tv, c, g')"
  shows "length tv = s * s \<and> labelled names tv \<and> counted names tv c \<and> unit_draws g'"
proof -
  have "length tv = square s \<and> labelled names tv \<and> counted names tv c \<and> unit_draws g'"
    by (rule treeLoop_inv [OF assms(2) assms(1) _ counted_empty _ _ _ assms(3) [unfolded createForest_def]])
       (simp_all add: labelled_def)
  then show ?thesis by (simp add: square_def)
qed

lemma newForest_inv:
  assumes "names \<noteq> []" "unit_draws g" "newForest s names clock g = (f, g')"
  shows "length (trees f) = s * s \<and> forest_N f = s * s \<and> forest_s f = s \<and> treeNames f = names
    \<and> labelled names (trees f) \<and> counted names (trees f) (census f) \<and> unit_draws g'"
proof -
  obtain tv c where tl: "treeLoop
             (\<lambda>i c r sp. \<lparr>col = c, row = r, species = sp, birthdate = clock, idx = i,
                 neighborTrees = [], neighborSpecies = {}\<rparr>)
             names s (square s) 0 0 0 [] (zeroCounts names) g = (tv, c, g')"
    and f: "f = \<lparr>forest_s = s, forest_N = square s, trees = map (listNeighbors s) tv,
            treeNames = names, census = c\<rparr>"
    using assms(3) by (auto simp: newForest_def split: prod.splits)
  have inv: "length tv = square s \<and> labelled names tv \<and> counted names tv c \<and> unit_draws g'"
    by (rule treeLoop_inv [OF assms(2) assms(1) _ counted_empty _ _ _ tl])
       (simp_all add: labelled_def)
  have "labelled names (map (listNeighbors s) tv)"
    using inv by (auto simp: labelled_def species_listNeighbors)
  moreover have "counted names (map (listNeighbors s) tv) c"
    using inv by (simp add: counted_def population_map [of "listNeighbors s", OF species_listNeighbors])
  ultimately show ?thesis using inv f by (simp add: square_def)
qed

text \<open>
  C8. For every side length \<open>s\<close>, grid construction (\<^verbatim>\<open>createForest\<close> of immigration
  and coexist, the \<^verbatim>\<open>Forest\<close> constructor of socialdx) makes exactly \<open>s\<^sup>2\<close> trees, each
  holding a species of the given set, and a census that maps every species of the set
  to the number of trees holding it; the counts sum to \<open>s\<^sup>2\<close> and no site is vacant.
  The species set is not empty and the draws of \<^verbatim>\<open>Math.random()\<close> lie in \<open>[0, 1)\<close>.
\<close>

theorem grid_construction:
  assumes "names \<noteq> []" and "unit_draws g"
    and "createForest names clock s g = (treeVector, speciesCounts, g1)"
    and "newForest s names clock g = (f, g2)"
  shows "length treeVector = s * s
    \<and> (\<forall>t \<in> set treeVector. \<exists>sp \<in> set names. species t = Str sp)
    \<and> (\<forall>sp \<in> set names. speciesCounts sp = Some (Num (real (population treeVector sp))))
    \<and> (\<Sum>sp\<in>set names. population treeVector sp) = s * s
    \<and> vacancies treeVector = 0
    \<and> length (trees f) = s * s
    \<and> (\<forall>t \<in> set (trees f). \<exists>sp \<in> set names. species t = Str sp)
    \<and> (\<forall>sp \<in> set names. census f sp = Some (Num (real (population (trees f) sp))))
    \<and> (\<Sum>sp\<in>set names. population (trees f) sp) = s * s
    \<and> vacancies (trees f) = 0"
proof -
  have a: "length treeVector = s * s" "labelled names treeVector"
    "counted names treeVector speciesCounts"
    using createForest_inv [OF assms(1,2,3)] by simp_all
  have b: "length (trees f) = s * s" "labelled names (trees f)"
    "counted names (trees f) (census f)"
    using newForest_inv [OF assms(1,2,4)] by simp_all
  have va: "vacancies treeVector = 0" using a(2) by (rule labelled_vacancies)
  have vb: "vacancies (trees f) = 0" using b(2) by (rule labelled_vacancies)
  have sa: "(\<Sum>sp\<in>set names. population treeVector sp) = s * s"
    using population_sum [of treeVector names] a(1,2) va by (auto simp: labelled_def)
  have sb: "(\<Sum>sp\<in>set names. population (trees f) sp) = s * s"
    using population_sum [of "trees f" names] b(1,2) vb by (auto simp: labelled_def)
  show ?thesis
    using a b va vb sa sb unfolding labelled_def counted_def by blast
qed

theorem grid_construction_witness:
  "treeNames_coexist \<noteq> [] \<and> unit_draws (\<lambda>n. 1 / 2)
   \<and> length (fst (createForest treeNames_coexist 0 2 (\<lambda>n. 1 / 2))) = 2 * 2
   \<and> fst (snd (createForest treeNames_coexist 0 2 (\<lambda>n. 1 / 2))) ''orange'' = Some (Num 4)
   \<and> population (trees (fst (newForest 2 treeNames_coexist 0 (\<lambda>n. 1 / 2)))) ''orange'' = 4"
proof -
  have n: "treeNames_coexist \<noteq> []" by (simp add: treeNames_coexist_def)
  have u: "unit_draws (\<lambda>n. 1 / 2)" by (simp add: unit_draws_def)
  have o: "''orange'' \<in> set treeNames_coexist" by (simp add: treeNames_coexist_def)
  have p: "population (fst (createForest treeNames_coexist 0 2 (\<lambda>n. 1 / 2))) ''orange'' = 4"
    by (simp add: createForest_def treeNames_coexist_def square_def treeLoop.simps randomSpecies_def randomElement_def randomIndex_def random_def element_def Let_def population_def)
  have q: "population (trees (fst (newForest 2 treeNames_coexist 0 (\<lambda>n. 1 / 2)))) ''orange'' = 4"
    by (simp add: newForest_def treeNames_coexist_def square_def treeLoop.simps randomSpecies_def randomElement_def randomIndex_def random_def element_def Let_def population_def listNeighbors_def)
  let ?cf = "createForest treeNames_coexist 0 2 (\<lambda>n. 1 / 2)"
  let ?nf = "newForest 2 treeNames_coexist 0 (\<lambda>n. 1 / 2)"
  have e1: "?cf = (fst ?cf, fst (snd ?cf), snd (snd ?cf))" by simp
  have e2: "?nf = (fst ?nf, snd ?nf)" by simp
  from grid_construction [OF n u e1 e2] n u o p q show ?thesis by simp
qed

section \<open>Replacing a tree, and loops of replacements\<close>

lemma population_update:
  assumes "i < length ts"
  shows "real (population (ts[i := t']) sp) =
    real (population ts sp) - (if species (ts ! i) = Str sp then 1 else 0)
      + (if species t' = Str sp then 1 else 0)"
proof -
  have a: "ts = take i ts @ ts ! i # drop (Suc i) ts"
    using assms by (simp add: id_take_nth_drop)
  have b: "ts[i := t'] = take i ts @ t' # drop (Suc i) ts"
    using assms by (simp add: upd_conv_take_nth_drop)
  have "population ts sp = population (take i ts) sp + (if species (ts ! i) = Str sp then 1 else 0)
      + population (drop (Suc i) ts) sp"
    by (subst a) (simp add: population_def)
  moreover have "population (ts[i := t']) sp = population (take i ts) sp
      + (if species t' = Str sp then 1 else 0) + population (drop (Suc i) ts) sp"
    by (subst b) (simp add: population_def)
  ultimately show ?thesis by simp
qed

lemma vacancies_update:
  assumes "i < length ts"
  shows "real (vacancies (ts[i := t'])) =
    real (vacancies ts) - (if species (ts ! i) = Null then 1 else 0)
      + (if species t' = Null then 1 else 0)"
proof -
  have a: "ts = take i ts @ ts ! i # drop (Suc i) ts"
    using assms by (simp add: id_take_nth_drop)
  have b: "ts[i := t'] = take i ts @ t' # drop (Suc i) ts"
    using assms by (simp add: upd_conv_take_nth_drop)
  have "vacancies ts = vacancies (take i ts) + (if species (ts ! i) = Null then 1 else 0)
      + vacancies (drop (Suc i) ts)"
    by (subst a) (simp add: vacancies_def)
  moreover have "vacancies (ts[i := t']) = vacancies (take i ts)
      + (if species t' = Null then 1 else 0) + vacancies (drop (Suc i) ts)"
    by (subst b) (simp add: vacancies_def)
  ultimately show ?thesis by simp
qed

lemma decrement_apply:
  assumes "c sp = Some (Num n)" "(\<exists>x. v = Str x) \<or> key v \<notin> set names" "sp \<in> set names"
  shows "decrement c (key v) sp = Some (Num (n - (if v = Str sp then 1 else 0)))"
  using assms by (cases v) (auto simp: decrement_def to_num_def)

lemma increment_apply:
  assumes "c sp = Some (Num n)" "(\<exists>x. v = Str x) \<or> key v \<notin> set names" "sp \<in> set names"
  shows "increment c (key v) sp = Some (Num (n + (if v = Str sp then 1 else 0)))"
  using assms by (cases v) (auto simp: increment_def to_num_def)

lemma counted_replace:
  assumes "counted names ts c" "i < length ts"
    "(\<exists>x. species (ts ! i) = Str x) \<or> key (species (ts ! i)) \<notin> set names"
    "(\<exists>y. species t' = Str y) \<or> key (species t') \<notin> set names"
  shows "counted names (ts[i := t'])
    (increment (decrement c (key (species (ts ! i)))) (key (species t')))"
  unfolding counted_def
proof
  fix sp assume sp: "sp \<in> set names"
  have c: "c sp = Some (Num (real (population ts sp)))"
    using assms(1) sp by (simp add: counted_def)
  show "increment (decrement c (key (species (ts ! i)))) (key (species t')) sp =
      Some (Num (real (population (ts[i := t']) sp)))"
  proof -
    have d: "decrement c (key (species (ts ! i))) sp =
        Some (Num (real (population ts sp) - (if species (ts ! i) = Str sp then 1 else 0)))"
      using c assms(3) sp by (rule decrement_apply [where c = c and sp = sp])
    show ?thesis
      using d assms(4) sp
      by (simp add: increment_apply [where c = "decrement c (key (species (ts ! i)))" and sp = sp
            and names = names] population_update [OF assms(2)])
  qed
qed

lemma counted_vacate:
  assumes "counted names ts c" "i < length ts"
    "(\<exists>x. species (ts ! i) = Str x) \<or> key (species (ts ! i)) \<notin> set names"
    "species t' = Null"
  shows "counted names (ts[i := t']) (decrement c (key (species (ts ! i))))"
  unfolding counted_def
proof
  fix sp assume sp: "sp \<in> set names"
  have c: "c sp = Some (Num (real (population ts sp)))"
    using assms(1) sp by (simp add: counted_def)
  show "decrement c (key (species (ts ! i))) sp = Some (Num (real (population (ts[i := t']) sp)))"
    using c assms(3) sp
    by (simp add: decrement_apply [where c = c and sp = sp and names = names]
          population_update [OF assms(2)] assms(4))
qed

lemma labelled_update:
  assumes "labelled names ts" "species t' = Str y" "y \<in> set names"
  shows "labelled names (ts[i := t'])"
  using assms unfolding labelled_def by (auto dest!: set_update_subset_insert [THEN subsetD])

lemma labelled_nth: "labelled names ts \<Longrightarrow> i < length ts \<Longrightarrow> \<exists>sp \<in> set names. species (ts ! i) = Str sp"
  by (simp add: labelled_def)

lemma forLoop_rule:
  assumes "forLoop i n body st = Ok st'" "I i st" "i \<le> n"
    "\<And>k s s'. i \<le> k \<Longrightarrow> k < n \<Longrightarrow> I k s \<Longrightarrow> body s = Ok s' \<Longrightarrow> I (k + 1) s'"
  shows "I n st'"
  using assms
proof (induction i n body st rule: forLoop.induct)
  case (1 i n body st)
  show ?case
  proof (cases "i < n")
    case False
    then show ?thesis using "1.prems" by (simp add: forLoop.simps)
  next
    case True
    then obtain s1 where b: "body st = Ok s1" and r: "forLoop (i + 1) n body s1 = Ok st'"
      using "1.prems"(1) by (subst (asm) forLoop.simps) (auto split: result.splits)
    have "I (i + 1) s1" using "1.prems"(4) [OF _ True "1.prems"(2) b] by simp
    then show ?thesis
      using "1.IH" [OF True b r] "1.prems"(4) True by simp
  qed
qed

lemma forLoop_total:
  assumes "I i st" "\<And>k s. I k s \<Longrightarrow> \<exists>s'. body s = Ok s' \<and> I (k + 1) s'"
  shows "\<exists>st'. forLoop i n body st = Ok st'"
  using assms
proof (induction i n body st rule: forLoop.induct)
  case (1 i n body st)
  show ?case
  proof (cases "i < n")
    case False
    then show ?thesis by (simp add: forLoop.simps)
  next
    case True
    obtain s1 where b: "body st = Ok s1" and i1: "I (i + 1) s1"
      using "1.prems"(2) [OF "1.prems"(1)] by blast
    have "\<exists>st'. forLoop (i + 1) n body s1 = Ok st'"
      using "1.IH" [OF True b i1] "1.prems"(2) by blast
    then show ?thesis using True b by (subst forLoop.simps) simp
  qed
qed

text \<open>What a drifting program keeps true of its tree array and census.\<close>

lemma element_Some: "0 \<le> i \<Longrightarrow> i < int (length arr) \<Longrightarrow> element arr i = Some (arr ! nat i)"
  by (simp add: element_def)

lemma element_SomeD: "element arr i = Some x \<Longrightarrow> 0 \<le> i \<and> nat i < length arr \<and> x = arr ! nat i"
  by (auto simp: element_def split: if_splits)

lemma treeNames_immigration_nonempty: "treeNames_immigration \<noteq> []"
  by (simp add: treeNames_immigration_def)

lemma arrivingSpecies_labelled:
  assumes "unit_draws g" "theForest st \<noteq> []" "labelled treeNames_immigration (theForest st)"
  shows "\<exists>y \<in> set treeNames_immigration. fst (arrivingSpecies st g) = Ok (Str y)"
proof (cases "immigrationDue st")
  case True
  then show ?thesis
    using randomSpecies_member [OF assms(1) treeNames_immigration_nonempty]
    by (auto simp: arrivingSpecies_def)
next
  case False
  obtain t where t: "t \<in> set (theForest st)" "fst (randomElement (theForest st) g) = Some t"
    using randomElement_member [OF assms(1,2)] by blast
  then show ?thesis using False assms(3) by (auto simp: arrivingSpecies_def labelled_def)
qed

lemma unit_draws_arrivingSpecies: "unit_draws g \<Longrightarrow> unit_draws (snd (arrivingSpecies st g))"
  by (simp add: arrivingSpecies_def unit_draws_randomSpecies unit_draws_randomElement)

lemma replaceTree_step:
  assumes "unit_draws g" "theForest st \<noteq> []" "labelled treeNames_immigration (theForest st)"
    "counted treeNames_immigration (theForest st) (theCensus st)"
  shows "\<exists>st' g'. replaceTree st g = Ok (st', g') \<and> unit_draws g'
    \<and> length (theForest st') = length (theForest st)
    \<and> labelled treeNames_immigration (theForest st')
    \<and> counted treeNames_immigration (theForest st') (theCensus st')"
proof -
  let ?n = "length (theForest st)"
  let ?d = "fst (randomIndex ?n g)"
  let ?g1 = "snd (randomIndex ?n g)"
  have n: "0 < ?n" using assms(2) by simp
  have d: "0 \<le> ?d" "?d < int ?n" using randomIndex_range [OF assms(1) n] by simp_all
  then have dn: "nat ?d < ?n" by simp
  have u1: "unit_draws ?g1" using assms(1) by (rule unit_draws_randomIndex)
  obtain y where y: "y \<in> set treeNames_immigration" "fst (arrivingSpecies st ?g1) = Ok (Str y)"
    using arrivingSpecies_labelled [OF u1 assms(2,3)] by blast
  obtain x where x: "x \<in> set treeNames_immigration" "species (theForest st ! nat ?d) = Str x"
    using labelled_nth [OF assms(3) dn] by blast
  let ?t' = "(theForest st ! nat ?d)\<lparr>species := Str y\<rparr>"
  have r: "replaceTree st g = Ok (st\<lparr>theCensus :=
       increment (decrement (theCensus st) (key (species (theForest st ! nat ?d)))) (key (Str y)),
       theForest := (theForest st)[nat ?d := ?t'], stepCount := stepCount st + 1\<rparr>,
       snd (arrivingSpecies st ?g1))"
    using y d by (simp add: replaceTree_def Let_def element_Some)
  have c: "counted treeNames_immigration ((theForest st)[nat ?d := ?t'])
      (increment (decrement (theCensus st) (key (species (theForest st ! nat ?d)))) (key (species ?t')))"
    by (rule counted_replace [OF assms(4) dn]) (use x in simp_all)
  have l: "labelled treeNames_immigration ((theForest st)[nat ?d := ?t'])"
    by (rule labelled_update [OF assms(3) _ y(1)]) simp
  show ?thesis
    using r c l unit_draws_arrivingSpecies [OF u1] by simp
qed

section \<open>The immigration rule\<close>

lemma random_shift: "snd (randomIndex n g) = (\<lambda>k. g (Suc k))" "fst (randomIndex n g) = \<lfloor>g 0 * real n\<rfloor>"
  by (simp_all add: randomIndex_def random_def)

lemma randomIndex_uniform:
  assumes "0 < n"
  shows "fst (randomIndex n g) = int i \<longleftrightarrow> real i / real n \<le> g 0 \<and> g 0 < (real i + 1) / real n"
proof -
  have "\<lfloor>g 0 * real n\<rfloor> = int i \<longleftrightarrow> real i \<le> g 0 * real n \<and> g 0 * real n < real i + 1"
    by (simp add: floor_eq_iff)
  then show ?thesis using assms by (simp add: random_shift pos_divide_le_eq pos_less_divide_eq)
qed

lemma immigrationDue_dvd:
  "0 < immigrationInterval st \<Longrightarrow> immigrationDue st \<longleftrightarrow> immigrationInterval st dvd stepCount st"
  by (auto simp: immigrationDue_def mod_eq_0_iff_dvd)

lemma immigrationIntervalList_positive: "\<forall>k \<in> set immigrationIntervalList. 0 < k"
  by (simp add: immigrationIntervalList_def)

lemma replaceTree_OkD:
  assumes "replaceTree st g = Ok (st', g')"
  shows "\<exists>a. fst (arrivingSpecies st (\<lambda>k. g (Suc k))) = Ok a
    \<and> 0 \<le> \<lfloor>g 0 * real (length (theForest st))\<rfloor>
    \<and> nat \<lfloor>g 0 * real (length (theForest st))\<rfloor> < length (theForest st)
    \<and> theForest st' = (theForest st)[nat \<lfloor>g 0 * real (length (theForest st))\<rfloor> :=
          (theForest st ! nat \<lfloor>g 0 * real (length (theForest st))\<rfloor>)\<lparr>species := a\<rparr>]
    \<and> theCensus st' = increment (decrement (theCensus st)
          (key (species (theForest st ! nat \<lfloor>g 0 * real (length (theForest st))\<rfloor>)))) (key a)
    \<and> stepCount st' = stepCount st + 1 \<and> state st' = state st \<and> timer st' = timer st
    \<and> immigrationInterval st' = immigrationInterval st
    \<and> g' = snd (arrivingSpecies st (\<lambda>k. g (Suc k)))"
  using assms
  by (auto simp: replaceTree_def Let_def random_shift split: result.splits option.splits
        dest!: element_SomeD)

lemma randomSpecies_nth:
  assumes "unit_draws g" "names \<noteq> []"
  shows "fst (randomSpecies names g) = Str (names ! nat \<lfloor>g 0 * real (length names)\<rfloor>)"
  using randomIndex_range [OF assms(1), of "length names"] assms(2)
  by (simp add: randomSpecies_def randomElement_def element_def random_shift)

lemma unit_draws_Suc: "unit_draws g \<Longrightarrow> unit_draws (\<lambda>k. g (Suc k))"
  by (simp add: unit_draws_def)

lemma replaceTree_arrival:
  assumes "unit_draws g" and "0 < immigrationInterval st" and "replaceTree st g = Ok (st', g')"
  shows "(immigrationInterval st dvd stepCount st \<longrightarrow>
            species (theForest st' ! nat \<lfloor>g 0 * real (length (theForest st))\<rfloor>) =
              Str (treeNames_immigration ! nat \<lfloor>g 1 * real (length treeNames_immigration)\<rfloor>))
       \<and> (\<not> immigrationInterval st dvd stepCount st \<longrightarrow>
            species (theForest st' ! nat \<lfloor>g 0 * real (length (theForest st))\<rfloor>) =
              species (theForest st ! nat \<lfloor>g 1 * real (length (theForest st))\<rfloor>))
       \<and> (immigrationInterval st = 1 \<longrightarrow>
            species (theForest st' ! nat \<lfloor>g 0 * real (length (theForest st))\<rfloor>) =
              Str (treeNames_immigration ! nat \<lfloor>g 1 * real (length treeNames_immigration)\<rfloor>))"
proof -
  let ?d = "nat \<lfloor>g 0 * real (length (theForest st))\<rfloor>"
  let ?g1 = "\<lambda>k. g (Suc k)"
  obtain a where a: "fst (arrivingSpecies st ?g1) = Ok a" and d: "?d < length (theForest st)"
    and f: "theForest st' = (theForest st)[?d := (theForest st ! ?d)\<lparr>species := a\<rparr>]"
    using replaceTree_OkD [OF assms(3)] by blast
  have sp: "species (theForest st' ! ?d) = a" using f d by simp
  have u1: "unit_draws ?g1" using assms(1) by (rule unit_draws_Suc)
  have imm: "a = Str (treeNames_immigration ! nat \<lfloor>g 1 * real (length treeNames_immigration)\<rfloor>)"
    if "immigrationDue st"
    using a that randomSpecies_nth [OF u1 treeNames_immigration_nonempty]
    by (simp add: arrivingSpecies_def)
  have loc: "a = species (theForest st ! nat \<lfloor>g 1 * real (length (theForest st))\<rfloor>)"
    if "\<not> immigrationDue st"
    using a that
    by (auto simp: arrivingSpecies_def randomElement_def random_shift split: option.splits
          dest!: element_SomeD)
  have one: "immigrationInterval st = 1 \<Longrightarrow> immigrationDue st"
    by (simp add: immigrationDue_def)
  show ?thesis
    using sp imm loc one immigrationDue_dvd [OF assms(2)] by auto
qed

text \<open>
  C5. In the immigration program, a replacement gives the departing tree (the tree the
  first draw selects) a species selected by the second draw: from the list of all
  species exactly when the clock, before it is incremented, is divisible by the
  immigration interval \<open>k > 0\<close>, and otherwise the current species of the tree that the
  second draw selects in the forest. With \<open>k = 1\<close> every replacement is an immigration.
  (By \<open>randomIndex_uniform\<close> a draw selects index \<open>i\<close> of \<open>n\<close> exactly when it lies in
  \<open>[i/n, (i+1)/n)\<close>, so a uniform draw selects uniformly.)
\<close>

theorem immigration_rule:
  assumes "unit_draws g" and "0 < immigrationInterval st" and "replaceTree st g = Ok (st', g')"
  shows "(immigrationInterval st dvd stepCount st \<longrightarrow>
            species (theForest st' ! nat \<lfloor>g 0 * real (length (theForest st))\<rfloor>) =
              Str (treeNames_immigration ! nat \<lfloor>g 1 * real (length treeNames_immigration)\<rfloor>))
       \<and> (\<not> immigrationInterval st dvd stepCount st \<longrightarrow>
            species (theForest st' ! nat \<lfloor>g 0 * real (length (theForest st))\<rfloor>) =
              species (theForest st ! nat \<lfloor>g 1 * real (length (theForest st))\<rfloor>))
       \<and> (immigrationInterval st = 1 \<longrightarrow>
            species (theForest st' ! nat \<lfloor>g 0 * real (length (theForest st))\<rfloor>) =
              Str (treeNames_immigration ! nat \<lfloor>g 1 * real (length treeNames_immigration)\<rfloor>))"
  using assms by (rule replaceTree_arrival)

theorem immigration_rule_witness:
  "unit_draws (\<lambda>n. 1 / 2) \<and> 0 < immigrationInterval twoTrees
   \<and> immigrationInterval twoTrees dvd stepCount twoTrees
   \<and> (\<exists>st' g'. replaceTree twoTrees (\<lambda>n. 1 / 2) = Ok (st', g')
         \<and> species (theForest st' ! 1) = Str ''birch'')
   \<and> \<not> immigrationInterval twoTrees dvd stepCount (twoTrees\<lparr>stepCount := 101\<rparr>)
   \<and> (\<exists>st' g'. replaceTree (twoTrees\<lparr>stepCount := 101\<rparr>) (\<lambda>n. if n = 0 then 0 else 1 / 2) = Ok (st', g')
         \<and> species (theForest st' ! 0) = Str ''elm'')"
proof -
  have u: "unit_draws (\<lambda>n. 1 / 2)" "unit_draws (\<lambda>n. if n = 0 then 0 else 1 / 2)"
    by (simp_all add: unit_draws_def)
  have k: "0 < immigrationInterval twoTrees" "0 < immigrationInterval (twoTrees\<lparr>stepCount := 101\<rparr>)"
    by (simp_all add: twoTrees_def)
  obtain s1 g1 where r1: "replaceTree twoTrees (\<lambda>n. 1 / 2) = Ok (s1, g1)"
    using replaceTree_step [of "\<lambda>n. 1 / 2" twoTrees] u(1)
    by (auto simp: twoTrees_def labelled_def counted_def treeNames_immigration_def
          zeroCounts_apply population_def)
  obtain s2 g2 where r2: "replaceTree (twoTrees\<lparr>stepCount := 101\<rparr>) (\<lambda>n. if n = 0 then 0 else 1 / 2) = Ok (s2, g2)"
    using replaceTree_step [of "\<lambda>n. if n = 0 then 0 else 1 / 2" "twoTrees\<lparr>stepCount := 101\<rparr>"] u(2)
    by (auto simp: twoTrees_def labelled_def counted_def treeNames_immigration_def
          zeroCounts_apply population_def)
  from immigration_rule [OF u(1) k(1) r1] immigration_rule [OF u(2) k(2) r2] u k r1 r2
  show ?thesis
    by (simp add: twoTrees_def treeNames_immigration_def)
qed

lemma init_inv:
  assumes "unit_draws g" "init st g = (st0, g0)"
  shows "unit_draws g0 \<and> length (theForest st0) = 625
    \<and> labelled treeNames_immigration (theForest st0)
    \<and> counted treeNames_immigration (theForest st0) (theCensus st0)
    \<and> stepCount st0 = stepCount st \<and> immigrationInterval st0 = immigrationInterval st
    \<and> state st0 = Idle"
proof -
  obtain tv c where cf: "createForest treeNames_immigration (stepCount st) 25 g = (tv, c, g0)"
    and s: "st0 = st\<lparr>theForest := tv, theCensus := c, state := Idle\<rparr>"
    using assms(2) by (auto simp: init_def split: prod.splits)
  show ?thesis
    using createForest_inv [OF treeNames_immigration_nonempty assms(1) cf] s by simp
qed

lemma firstStep:
  assumes "unit_draws g0" "theForest st0 \<noteq> []" "labelled treeNames_immigration (theForest st0)"
    "counted treeNames_immigration (theForest st0) (theCensus st0)"
    "stepCount st0 = 0" "0 < immigrationInterval st0"
  shows "firstStepImmigrates (st0, g0)"
proof -
  obtain st' g' where r: "replaceTree st0 g0 = Ok (st', g')"
    using replaceTree_step [OF assms(1-4)] by blast
  have "species (theForest st' ! nat \<lfloor>g0 0 * real (length (theForest st0))\<rfloor>) =
      Str (treeNames_immigration ! nat \<lfloor>g0 1 * real (length treeNames_immigration)\<rfloor>)"
    using replaceTree_arrival [OF assms(1) assms(6) r] assms(5) by simp
  then show ?thesis using r by (simp add: firstStepImmigrates_def)
qed


lemma doReset_inv:
  assumes "unit_draws g" "doReset st g = (st0, g0)"
  shows "unit_draws g0 \<and> length (theForest st0) = 625
    \<and> labelled treeNames_immigration (theForest st0)
    \<and> counted treeNames_immigration (theForest st0) (theCensus st0)
    \<and> stepCount st0 = 0 \<and> immigrationInterval st0 = immigrationInterval st
    \<and> state st0 = Idle"
  using init_inv [OF assms(1) assms(2) [unfolded doReset_def]] by simp

text \<open>
  C9. In the immigration program the first replacement after a reset, and after the
  initialization at page load (when the clock is 0), is an immigration, whatever the
  immigration interval \<open>k > 0\<close>: the clock is 0, and \<open>0 mod k = 0\<close>.
  Every interval of the slider's menu is positive (\<open>immigrationIntervalList_positive\<close>),
  and so is the default, 100.
\<close>

theorem first_step_is_immigration:
  assumes "unit_draws g" and "0 < immigrationInterval st"
  shows "stepCount (fst (doReset st g)) = 0
    \<and> immigrationDue (fst (doReset st g))
    \<and> firstStepImmigrates (doReset st g)
    \<and> (stepCount st = 0 \<longrightarrow> immigrationDue (fst (init st g)) \<and> firstStepImmigrates (init st g))"
proof -
  obtain s0 g0 where r: "doReset st g = (s0, g0)" by (cases "doReset st g")
  obtain s1 g1 where i: "init st g = (s1, g1)" by (cases "init st g")
  note a = doReset_inv [OF assms(1) r]
  note b = init_inv [OF assms(1) i]
  have "firstStepImmigrates (s0, g0)"
    by (rule firstStep) (use a assms(2) in auto)
  moreover have "firstStepImmigrates (s1, g1)" if "stepCount st = 0"
    by (rule firstStep) (use b assms(2) that in auto)
  moreover have "immigrationDue s0" using a assms(2) by (simp add: immigrationDue_def)
  moreover have "immigrationDue s1" if "stepCount st = 0"
    using b assms(2) that by (simp add: immigrationDue_def)
  ultimately show ?thesis using a r i by simp
qed

theorem first_step_is_immigration_witness:
  "unit_draws (\<lambda>n. 1 / 2) \<and> 0 < immigrationInterval pageLoad \<and> stepCount pageLoad = 0
   \<and> firstStepImmigrates (doReset pageLoad (\<lambda>n. 1 / 2))
   \<and> firstStepImmigrates (init pageLoad (\<lambda>n. 1 / 2))"
proof -
  have u: "unit_draws (\<lambda>n. 1 / 2)" by (simp add: unit_draws_def)
  have k: "0 < immigrationInterval pageLoad" by (simp add: pageLoad_def)
  have z: "stepCount pageLoad = 0" by (simp add: pageLoad_def)
  from first_step_is_immigration [OF u k] u k z show ?thesis by simp
qed

section \<open>The rejection loop of the coexist program\<close>

lemma randomElement_shift:
  "snd (randomElement arr g) = (\<lambda>k. g (Suc k))"
  "fst (randomElement arr g) = element arr \<lfloor>g 0 * real (length arr)\<rfloor>"
  by (simp_all add: randomElement_def random_shift)

lemma flipBiasedCoin_shift:
  "snd (flipBiasedCoin b g) = (\<lambda>k. g (Suc k))"
  "fst (flipBiasedCoin b g) = js_less (Num (g 0)) b"
  by (simp_all add: flipBiasedCoin_def random_def)

lemma draw_in_range:
  assumes "unit_draws g" "arr \<noteq> []"
  shows "0 \<le> \<lfloor>g k * real (length arr)\<rfloor>" "\<lfloor>g k * real (length arr)\<rfloor> < int (length arr)"
    "nat \<lfloor>g k * real (length arr)\<rfloor> < length arr"
proof -
  have u: "0 \<le> g k" "g k < 1" using assms(1) by (simp_all add: unit_draws_def)
  have n: "0 < real (length arr)" using assms(2) by simp
  show a: "0 \<le> \<lfloor>g k * real (length arr)\<rfloor>" using u by simp
  have "g k * real (length arr) < real (length arr)" using u n by simp
  then show b: "\<lfloor>g k * real (length arr)\<rfloor> < int (length arr)" by (simp add: floor_less_iff)
  show "nat \<lfloor>g k * real (length arr)\<rfloor> < length arr" using b nat_less_iff [OF a] by simp
qed

lemma arrivalLoop_unfold:
  assumes "unit_draws h" "forest \<noteq> []"
  shows "arrivalLoop forest fo fr h =
    (if attempt forest fo fr h 0
     then Some (Ok (forest ! nat \<lfloor>h 0 * real (length forest)\<rfloor>, \<lambda>k. h (Suc (Suc k))))
     else arrivalLoop forest fo fr (\<lambda>k. h (Suc (Suc k))))"
  using draw_in_range(1,2) [OF assms, of 0]
  by (subst arrivalLoop.simps)
     (simp add: randomElement_shift flipBiasedCoin_shift element_def attempt_def)

lemma attempt_shift:
  "attempt forest fo fr (\<lambda>k. h (Suc (Suc k))) j = attempt forest fo fr h (Suc j)"
  by (simp add: attempt_def)

lemma unit_draws_shift: "unit_draws h \<Longrightarrow> unit_draws (\<lambda>k. h (k + m))"
  by (simp add: unit_draws_def)

lemma arrivalLoop_accept:
  assumes "unit_draws h" "forest \<noteq> []" "attempt forest fo fr h j"
    "\<forall>i<j. \<not> attempt forest fo fr h i"
  shows "arrivalLoop forest fo fr h =
    Some (Ok (forest ! nat \<lfloor>h (2 * j) * real (length forest)\<rfloor>, \<lambda>k. h (k + (2 * j + 2))))"
  using assms
proof (induction j arbitrary: h)
  case 0
  then show ?case by (simp add: arrivalLoop_unfold)
next
  case (Suc j)
  let ?h = "\<lambda>k. h (Suc (Suc k))"
  have n0: "\<not> attempt forest fo fr h 0" using Suc.prems(4) by simp
  have u: "unit_draws ?h" using Suc.prems(1) by (simp add: unit_draws_def)
  have a: "attempt forest fo fr ?h j" using Suc.prems(3) by (simp add: attempt_shift)
  have b: "\<forall>i<j. \<not> attempt forest fo fr ?h i" using Suc.prems(4) by (simp add: attempt_shift)
  have "arrivalLoop forest fo fr h = arrivalLoop forest fo fr ?h"
    using n0 by (simp add: arrivalLoop_unfold [OF Suc.prems(1,2)])
  also have "\<dots> = Some (Ok (forest ! nat \<lfloor>?h (2 * j) * real (length forest)\<rfloor>,
      \<lambda>k. ?h (k + (2 * j + 2))))"
    by (rule Suc.IH [OF u Suc.prems(2) a b])
  finally show ?case by simp
qed

lemma arrivalLoop_Some:
  assumes "arrivalLoop forest fo fr h = Some y"
  shows "unit_draws h \<longrightarrow> forest \<noteq> [] \<longrightarrow> (\<exists>j. attempt forest fo fr h j)"
proof (rule arrivalLoop.raw_induct
    [where P = "\<lambda>forest fo fr h y. unit_draws h \<longrightarrow> forest \<noteq> [] \<longrightarrow> (\<exists>j. attempt forest fo fr h j)",
      OF _ assms])
  fix loop :: "Tree list \<Rightarrow> jsnum \<Rightarrow> jsnum \<Rightarrow> rand \<Rightarrow> (Tree \<times> rand) result option"
    and forest fo fr h y
  assume IH: "\<And>forest fo fr h y. loop forest fo fr h = Some y \<Longrightarrow>
      unit_draws h \<longrightarrow> forest \<noteq> [] \<longrightarrow> (\<exists>j. attempt forest fo fr h j)"
    and step: "(case fst (randomElement forest h) of
        None \<Rightarrow> Some TypeError
      | Some arrivingTree \<Rightarrow>
          (if fst (flipBiasedCoin (bias fo fr arrivingTree) (snd (randomElement forest h)))
           then Some (Ok (arrivingTree,
                  snd (flipBiasedCoin (bias fo fr arrivingTree) (snd (randomElement forest h)))))
           else loop forest fo fr
                  (snd (flipBiasedCoin (bias fo fr arrivingTree) (snd (randomElement forest h)))))) =
        Some y"
  show "unit_draws h \<longrightarrow> forest \<noteq> [] \<longrightarrow> (\<exists>j. attempt forest fo fr h j)"
  proof (intro impI)
    assume u: "unit_draws h" and ne: "forest \<noteq> []"
    show "\<exists>j. attempt forest fo fr h j"
    proof (cases "attempt forest fo fr h 0")
      case True
      then show ?thesis by blast
    next
      case False
      let ?h = "\<lambda>k. h (Suc (Suc k))"
      have "loop forest fo fr ?h = Some y"
        using step False draw_in_range(1,2) [OF u ne, of 0]
        by (simp add: randomElement_shift flipBiasedCoin_shift element_def attempt_def)
      then have "\<exists>j. attempt forest fo fr ?h j"
        using IH u ne by (simp add: unit_draws_def)
      then show ?thesis by (auto simp: attempt_shift)
    qed
  qed
qed

lemma arrivalLoop_never:
  assumes "unit_draws h" "forest \<noteq> []" "\<forall>j. \<not> attempt forest fo fr h j"
  shows "arrivalLoop forest fo fr h = None"
proof (cases "arrivalLoop forest fo fr h")
  case None
  then show ?thesis .
next
  case (Some y)
  then show ?thesis using arrivalLoop_Some [OF Some] assms by blast
qed

lemma accepted_attempt:
  "accepted st g j =
     attempt (theForest st) (oliveFactor st) (orangeFactor st) (\<lambda>k. g (Suc k)) j"
  by (simp add: accepted_def attempt_def candidate_def)

lemma replaceTree_coexist_accept:
  assumes "unit_draws g" "theForest st \<noteq> []" "accepted st g j" "\<forall>i<j. \<not> accepted st g i"
  shows "replaceTree_coexist st g =
    Some (Ok (st\<lparr>theCensus :=
        increment (decrement (theCensus st)
           (key (species (theForest st ! nat \<lfloor>g 0 * real (length (theForest st))\<rfloor>))))
          (key (species (candidate st g j))),
      theForest := (theForest st)[nat \<lfloor>g 0 * real (length (theForest st))\<rfloor> :=
        (theForest st ! nat \<lfloor>g 0 * real (length (theForest st))\<rfloor>)
          \<lparr>species := species (candidate st g j)\<rparr>],
      stepCount := stepCount st + 1\<rparr>, \<lambda>k. g (k + (2 * j + 3))))"
proof -
  let ?h = "\<lambda>k. g (Suc k)"
  have u: "unit_draws ?h" using assms(1) by (simp add: unit_draws_def)
  have "arrivalLoop (theForest st) (oliveFactor st) (orangeFactor st) ?h =
    Some (Ok (theForest st ! nat \<lfloor>?h (2 * j) * real (length (theForest st))\<rfloor>,
      \<lambda>k. ?h (k + (2 * j + 2))))"
    by (rule arrivalLoop_accept [OF u assms(2)]) (use assms(3,4) in \<open>simp_all add: accepted_attempt\<close>)
  then show ?thesis
    using draw_in_range(1,2) [OF assms(1,2), of 0]
    by (simp add: replaceTree_coexist_def Let_def random_shift element_def candidate_def
          numeral_3_eq_3)
qed

lemma replaceTree_coexist_never:
  assumes "unit_draws g" "theForest st \<noteq> []" "\<forall>j. \<not> accepted st g j"
  shows "replaceTree_coexist st g = None"
proof -
  let ?h = "\<lambda>k. g (Suc k)"
  have u: "unit_draws ?h" using assms(1) by (simp add: unit_draws_def)
  have "arrivalLoop (theForest st) (oliveFactor st) (orangeFactor st) ?h = None"
    by (rule arrivalLoop_never [OF u assms(2)]) (use assms(3) in \<open>simp add: accepted_attempt\<close>)
  then show ?thesis by (simp add: replaceTree_coexist_def Let_def random_shift)
qed

lemma factors:
  assumes "theCensus st ''olive'' = Some (Num a)" "theCensus st ''orange'' = Some (Num b)"
    "iron st = Num fe" "calcium st = Num ca" "a + 1 / 4 * b \<noteq> 0" "b + 1 / 4 * a \<noteq> 0"
  shows "oliveFactor st = Num (fe / (a + 1 / 4 * b))" "orangeFactor st = Num (ca / (b + 1 / 4 * a))"
  using assms by (simp_all add: oliveFactor_def orangeFactor_def to_num_def poachingCoef_def)

lemma forLoopOpt_rule:
  assumes "forLoopOpt i n body st = Some (Ok st')" "I i st" "i \<le> n"
    "\<And>k s s'. i \<le> k \<Longrightarrow> k < n \<Longrightarrow> I k s \<Longrightarrow> body s = Some (Ok s') \<Longrightarrow> I (k + 1) s'"
  shows "I n st'"
  using assms
proof (induction i n body st rule: forLoopOpt.induct)
  case (1 i n body st)
  show ?case
  proof (cases "i < n")
    case False
    then show ?thesis using "1.prems" by (simp add: forLoopOpt.simps)
  next
    case True
    then obtain s1 where b: "body st = Some (Ok s1)"
      and r: "forLoopOpt (i + 1) n body s1 = Some (Ok st')"
      using "1.prems"(1)
      by (subst (asm) forLoopOpt.simps) (auto split: result.splits option.splits)
    have "I (i + 1) s1" using "1.prems"(4) [OF _ True "1.prems"(2) b] by simp
    then show ?thesis
      using "1.IH" [OF True b refl r] "1.prems"(4) True by simp
  qed
qed

lemma forLoopOpt_run:
  assumes "I i st" "i \<le> n"
    "\<And>k s. k < n \<Longrightarrow> I k s \<Longrightarrow> \<exists>s'. body s = Some (Ok s') \<and> I (k + 1) s'"
  shows "\<exists>st'. forLoopOpt i n body st = Some (Ok st') \<and> I n st'"
  using assms
proof (induction i n body st rule: forLoopOpt.induct)
  case (1 i n body st)
  show ?case
  proof (cases "i < n")
    case False
    then show ?thesis using "1.prems"(1,2) by (simp add: forLoopOpt.simps)
  next
    case True
    obtain s1 where b: "body st = Some (Ok s1)" and i1: "I (i + 1) s1"
      using "1.prems"(3) [OF True "1.prems"(1)] by blast
    have "\<exists>st'. forLoopOpt (i + 1) n body s1 = Some (Ok st') \<and> I n st'"
      using "1.IH" [OF True b refl i1] "1.prems"(3) True by simp
    then show ?thesis using True b by (subst forLoopOpt.simps) simp
  qed
qed

lemma arrivalLoop_member:
  assumes "arrivalLoop forest fo fr h = Some y"
  shows "\<forall>t h'. y = Ok (t, h') \<longrightarrow> t \<in> set forest \<and> (unit_draws h \<longrightarrow> unit_draws h')"
proof (rule arrivalLoop.raw_induct
    [where P = "\<lambda>forest fo fr h y. \<forall>t h'. y = Ok (t, h') \<longrightarrow> t \<in> set forest \<and> (unit_draws h \<longrightarrow> unit_draws h')",
      OF _ assms])
  fix loop :: "Tree list \<Rightarrow> jsnum \<Rightarrow> jsnum \<Rightarrow> rand \<Rightarrow> (Tree \<times> rand) result option"
    and forest fo fr h y
  assume IH: "\<And>forest fo fr h y. loop forest fo fr h = Some y \<Longrightarrow>
      \<forall>t h'. y = Ok (t, h') \<longrightarrow> t \<in> set forest \<and> (unit_draws h \<longrightarrow> unit_draws h')"
    and step: "(case fst (randomElement forest h) of
        None \<Rightarrow> Some TypeError
      | Some arrivingTree \<Rightarrow>
          (if fst (flipBiasedCoin (bias fo fr arrivingTree) (snd (randomElement forest h)))
           then Some (Ok (arrivingTree,
                  snd (flipBiasedCoin (bias fo fr arrivingTree) (snd (randomElement forest h)))))
           else loop forest fo fr
                  (snd (flipBiasedCoin (bias fo fr arrivingTree) (snd (randomElement forest h)))))) =
        Some y"
  show "\<forall>t h'. y = Ok (t, h') \<longrightarrow> t \<in> set forest \<and> (unit_draws h \<longrightarrow> unit_draws h')"
  proof (cases "fst (randomElement forest h)")
    case None
    then show ?thesis using step by auto
  next
    case (Some a)
    then have m: "a \<in> set forest"
      by (auto simp: randomElement_shift dest!: element_SomeD)
    show ?thesis
    proof (cases "fst (flipBiasedCoin (bias fo fr a) (snd (randomElement forest h)))")
      case True
      then show ?thesis using step Some m
        by (auto simp: randomElement_shift flipBiasedCoin_shift unit_draws_def)
    next
      case False
      then have "loop forest fo fr (\<lambda>k. h (Suc (Suc k))) = Some y"
        using step Some by (simp add: randomElement_shift flipBiasedCoin_shift)
      from IH [OF this] show ?thesis by (auto simp: unit_draws_def)
    qed
  qed
qed

lemma element_range: "element arr i \<noteq> None \<Longrightarrow> 0 \<le> i \<and> nat i < length arr"
  by (auto simp: element_def split: if_splits)

lemma replaceTree_coexist_OkD:
  assumes "replaceTree_coexist st g = Some (Ok (st', g'))"
  shows "\<exists>a \<in> set (theForest st).
      nat \<lfloor>g 0 * real (length (theForest st))\<rfloor> < length (theForest st)
    \<and> theForest st' = (theForest st)[nat \<lfloor>g 0 * real (length (theForest st))\<rfloor> :=
          (theForest st ! nat \<lfloor>g 0 * real (length (theForest st))\<rfloor>)\<lparr>species := species a\<rparr>]
    \<and> theCensus st' = increment (decrement (theCensus st)
          (key (species (theForest st ! nat \<lfloor>g 0 * real (length (theForest st))\<rfloor>))))
          (key (species a))
    \<and> stepCount st' = stepCount st + 1 \<and> state st' = state st \<and> timer st' = timer st
    \<and> iron st' = iron st \<and> calcium st' = calcium st \<and> buttonDisabled st' = buttonDisabled st
    \<and> (unit_draws g \<longrightarrow> unit_draws g')"
proof -
  let ?h = "\<lambda>k. g (Suc k)"
  obtain a where l: "arrivalLoop (theForest st) (oliveFactor st) (orangeFactor st) ?h = Some (Ok (a, g'))"
    and e: "element (theForest st) \<lfloor>g 0 * real (length (theForest st))\<rfloor> \<noteq> None"
    and s: "st' = st\<lparr>theCensus := increment (decrement (theCensus st)
          (key (species (theForest st ! nat \<lfloor>g 0 * real (length (theForest st))\<rfloor>))))
          (key (species a)),
        theForest := (theForest st)[nat \<lfloor>g 0 * real (length (theForest st))\<rfloor> :=
          (theForest st ! nat \<lfloor>g 0 * real (length (theForest st))\<rfloor>)\<lparr>species := species a\<rparr>],
        stepCount := stepCount st + 1\<rparr>"
    using assms
    by (auto simp: replaceTree_coexist_def Let_def random_shift
          split: option.splits result.splits dest!: element_SomeD)
  have m: "a \<in> set (theForest st)" "unit_draws ?h \<longrightarrow> unit_draws g'"
    using arrivalLoop_member [OF l] by simp_all
  have d: "nat \<lfloor>g 0 * real (length (theForest st))\<rfloor> < length (theForest st)"
    using element_range [OF e] by blast
  show ?thesis
    using m d s by (auto simp: unit_draws_def)
qed

lemma treeNames_coexist_nonempty: "treeNames_coexist \<noteq> []"
  by (simp add: treeNames_coexist_def)

lemma replaceTree_coexist_inv:
  assumes "replaceTree_coexist st g = Some (Ok (st', g'))"
    "labelled names (theForest st)" "counted names (theForest st) (theCensus st)"
  shows "length (theForest st') = length (theForest st) \<and> labelled names (theForest st')
    \<and> counted names (theForest st') (theCensus st')"
proof -
  let ?d = "nat \<lfloor>g 0 * real (length (theForest st))\<rfloor>"
  obtain a where a: "a \<in> set (theForest st)" and d: "?d < length (theForest st)"
    and f: "theForest st' = (theForest st)[?d := (theForest st ! ?d)\<lparr>species := species a\<rparr>]"
    and c: "theCensus st' = increment (decrement (theCensus st)
          (key (species (theForest st ! ?d)))) (key (species a))"
    using replaceTree_coexist_OkD [OF assms(1)] by blast
  obtain y where y: "y \<in> set names" "species a = Str y"
    using assms(2) a by (auto simp: labelled_def)
  obtain x where x: "x \<in> set names" "species (theForest st ! ?d) = Str x"
    using labelled_nth [OF assms(2) d] by blast
  let ?t' = "(theForest st ! ?d)\<lparr>species := species a\<rparr>"
  have "counted names ((theForest st)[?d := ?t'])
      (increment (decrement (theCensus st) (key (species (theForest st ! ?d)))) (key (species ?t')))"
    by (rule counted_replace [OF assms(3) d]) (use x y in simp_all)
  moreover have "labelled names ((theForest st)[?d := ?t'])"
    by (rule labelled_update [OF assms(2) _ y(1)]) (simp add: y)
  ultimately show ?thesis using f c by simp
qed

lemma factors_general:
  assumes "theCensus st ''olive'' = Some (Num a)" "theCensus st ''orange'' = Some (Num b)"
    "iron st = Num fe" "calcium st = Num ca" "poachingCoef = Num p"
    "a + p * b \<noteq> 0" "b + p * a \<noteq> 0"
  shows "oliveFactor st = Num (fe / (a + p * b))" "orangeFactor st = Num (ca / (b + p * a))"
  using assms(1-4,6,7) unfolding oliveFactor_def orangeFactor_def assms(5)
  by (simp_all add: to_num_def)

lemma accepted_less:
  assumes "oliveFactor st = Num fo" "orangeFactor st = Num fr"
  shows "accepted st g j \<longleftrightarrow>
    g (2 * j + 2) < (if species (candidate st g j) = Str ''olive'' then fo else fr)"
  using assms by (simp add: accepted_def bias_def)

text \<open>
  C6. In the coexist program the factor of a species is its resource (iron for olive,
  calcium for orange) divided by its own census count plus the poaching coefficient
  times the other count, read from the census before the step. After the draw for the
  departing tree, attempt \<open>j\<close> of the rejection loop takes a fresh draw for its candidate
  tree and a fresh draw for its coin, and is accepted if and only if the coin is below
  the factor of the candidate's species. The replacement returns at the first accepted
  attempt, with the species of that candidate; when no attempt is ever accepted it does
  not return.
\<close>

theorem competition_rule:
  assumes "unit_draws g" and "theForest st \<noteq> []"
  shows "(theCensus st ''olive'' = Some (Num a) \<and> theCensus st ''orange'' = Some (Num b)
            \<and> iron st = Num fe \<and> calcium st = Num ca \<and> poachingCoef = Num p
            \<and> a + p * b \<noteq> 0 \<and> b + p * a \<noteq> 0 \<longrightarrow>
          oliveFactor st = Num (fe / (a + p * b)) \<and> orangeFactor st = Num (ca / (b + p * a)))
    \<and> (oliveFactor st = Num fo \<and> orangeFactor st = Num fr \<longrightarrow>
          (accepted st g j \<longleftrightarrow>
             g (2 * j + 2) < (if species (candidate st g j) = Str ''olive'' then fo else fr)))
    \<and> (accepted st g j \<and> (\<forall>i<j. \<not> accepted st g i) \<longrightarrow>
          (\<exists>st'. replaceTree_coexist st g = Some (Ok (st', \<lambda>k. g (k + (2 * j + 3))))
             \<and> species (theForest st' ! nat \<lfloor>g 0 * real (length (theForest st))\<rfloor>) =
                 species (candidate st g j)))
    \<and> ((\<forall>i. \<not> accepted st g i) \<longrightarrow> replaceTree_coexist st g = None)"
proof -
  have "species ((theForest st)[nat \<lfloor>g 0 * real (length (theForest st))\<rfloor> :=
        (theForest st ! nat \<lfloor>g 0 * real (length (theForest st))\<rfloor>)
          \<lparr>species := species (candidate st g j)\<rparr>] ! nat \<lfloor>g 0 * real (length (theForest st))\<rfloor>) =
      species (candidate st g j)"
    using draw_in_range(3) [OF assms, of 0] by simp
  then have acc: "\<exists>st'. replaceTree_coexist st g = Some (Ok (st', \<lambda>k. g (k + (2 * j + 3))))
      \<and> species (theForest st' ! nat \<lfloor>g 0 * real (length (theForest st))\<rfloor>) =
          species (candidate st g j)"
    if "accepted st g j" "\<forall>i<j. \<not> accepted st g i"
    using replaceTree_coexist_accept [OF assms that] by simp
  show ?thesis
    using acc replaceTree_coexist_never [OF assms] factors_general [of st a b fe ca p]
      accepted_less [of st fo fr g j]
    by blast
qed

lemma lastOlive_nth:
  "i < 625 \<Longrightarrow> species (theForest lastOlive ! i) = Str (if i = 0 then ''olive'' else ''orange'')"
  by (simp add: lastOlive_def)

lemma lastOlive_facts:
  "unit_draws lastOliveDraws" "unit_draws rejectOnce" "theForest lastOlive \<noteq> []"
  "length (theForest lastOlive) = 625"
  "species (theForest lastOlive ! 0) = Str ''olive''"
  "species (theForest lastOlive ! 1) = Str ''orange''"
  "oliveFactor lastOlive = Num (50 / 157)" "orangeFactor lastOlive = Num (200 / 2497)"
  "state lastOlive = Running" "stepCount lastOlive = 499960"
  by (simp_all add: lastOlive_nth)
     (simp_all add: lastOlive_def lastOliveDraws_def rejectOnce_def unit_draws_def
        oliveFactor_def orangeFactor_def to_num_def poachingCoef_def)

lemma lastOlive_accepted:
  "accepted lastOlive lastOliveDraws 0" "\<not> accepted lastOlive rejectOnce 0"
  "accepted lastOlive rejectOnce 1"
  "species (candidate lastOlive lastOliveDraws 0) = Str ''orange''"
  "species (candidate lastOlive rejectOnce 1) = Str ''olive''"
  by (simp_all add: accepted_def candidate_def bias_def lastOlive_facts lastOlive_nth
        lastOliveDraws_def rejectOnce_def)

theorem competition_rule_witness:
  "unit_draws lastOliveDraws \<and> theForest lastOlive \<noteq> []
   \<and> oliveFactor lastOlive = Num (50 / (1 + 1 / 4 * 624))
   \<and> orangeFactor lastOlive = Num (50 / (624 + 1 / 4 * 1))
   \<and> accepted lastOlive lastOliveDraws 0
   \<and> (\<exists>st'. replaceTree_coexist lastOlive lastOliveDraws = Some (Ok (st', \<lambda>k. lastOliveDraws (k + 3)))
         \<and> species (theForest st' ! 0) = Str ''orange'')
   \<and> \<not> accepted lastOlive rejectOnce 0 \<and> accepted lastOlive rejectOnce 1
   \<and> (\<exists>st'. replaceTree_coexist lastOlive rejectOnce = Some (Ok (st', \<lambda>k. rejectOnce (k + 5)))
         \<and> species (theForest st' ! 0) = Str ''olive'')"
proof -
  note f = lastOlive_facts
  have c: "theCensus lastOlive ''olive'' = Some (Num 1) \<and> theCensus lastOlive ''orange'' = Some (Num 624)
    \<and> iron lastOlive = Num 50 \<and> calcium lastOlive = Num 50 \<and> poachingCoef = Num (1 / 4)
    \<and> (1::real) + 1 / 4 * 624 \<noteq> 0 \<and> (624::real) + 1 / 4 * 1 \<noteq> 0"
    by (simp add: lastOlive_def poachingCoef_def)
  have a0: "accepted lastOlive lastOliveDraws 0 \<and> (\<forall>i<0. \<not> accepted lastOlive lastOliveDraws i)"
    using lastOlive_accepted(1) by simp
  have a1: "accepted lastOlive rejectOnce 1 \<and> (\<forall>i<1. \<not> accepted lastOlive rejectOnce i)"
    using lastOlive_accepted(2,3) by simp
  have d: "nat \<lfloor>lastOliveDraws 0 * real (length (theForest lastOlive))\<rfloor> = 0"
    "nat \<lfloor>rejectOnce 0 * real (length (theForest lastOlive))\<rfloor> = 0"
    by (simp_all add: lastOliveDraws_def rejectOnce_def)
  from competition_rule [OF f(1) f(3), where a = 1 and b = 624 and fe = 50 and ca = 50
      and p = "1 / 4" and j = 0]
    competition_rule [OF f(2) f(3), where j = 1]
    c a0 a1 f lastOlive_accepted d
  show ?thesis by simp
qed

section \<open>The end of a batch of the coexist program\<close>

lemma batch_coexist_globals:
  assumes "forLoopOpt 0 n (\<lambda>(st, g). replaceTree_coexist st g) (st, g) = Some (Ok (st', g'))"
  shows "state st' = state st \<and> timer st' = timer st \<and> buttonDisabled st' = buttonDisabled st
    \<and> stepCount st' = stepCount st + n"
proof -
  let ?I = "\<lambda>k (p :: coexist \<times> rand). state (fst p) = state st \<and> timer (fst p) = timer st
      \<and> buttonDisabled (fst p) = buttonDisabled st \<and> stepCount (fst p) = stepCount st + k"
  have "?I n (st', g')"
  proof (rule forLoopOpt_rule [where I = ?I, OF assms])
    show "?I 0 (st, g)" by simp
  next
    fix k s s'
    assume i: "?I k s" and b: "(case s of (st, g) \<Rightarrow> replaceTree_coexist st g) = Some (Ok s')"
    obtain a h where s: "s = (a, h)" by (cases s)
    obtain a' h' where s': "s' = (a', h')" by (cases s')
    show "?I (k + 1) s'"
      using replaceTree_coexist_OkD [of a h a' h'] b i s s' by auto
  qed simp
  then show ?thesis by simp
qed

lemma runBatch_coexist_OkD:
  assumes "runBatch_coexist st g = Some (Ok (st', g'))"
  shows "\<exists>s1. forLoopOpt 0 batchSize (\<lambda>(st, g). replaceTree_coexist st g) (st, g) = Some (Ok (s1, g'))
    \<and> st' = batchEnd_coexist s1"
  using assms by (auto simp: runBatch_coexist_def split: option.splits result.splits)

lemma batchEnd_coexist_census: "theCensus (batchEnd_coexist st) = theCensus st"
  "stepCount (batchEnd_coexist st) = stepCount st"
  by (simp_all add: batchEnd_coexist_def doStartStop_coexist_def split: run_state.splits)

lemma batchEnd_coexist_extinct:
  assumes "state st = Running"
    "theCensus st ''olive'' = Some (Num 0) \<or> theCensus st ''orange'' = Some (Num 0)"
  shows "stepCount st mod 500000 \<noteq> 0 \<Longrightarrow>
      batchEnd_coexist st = st\<lparr>state := Done, timer := False, buttonDisabled := True\<rparr>"
    "stepCount st mod 500000 = 0 \<Longrightarrow>
      batchEnd_coexist st = st\<lparr>state := Paused, timer := False\<rparr>"
  using assms by (auto simp: batchEnd_coexist_def finished_coexist_def doStartStop_coexist_def)

lemma doReset_coexist_state:
  "state (fst (doReset_coexist st g)) = Idle" "\<not> buttonDisabled (fst (doReset_coexist st g))"
  "stepCount (fst (doReset_coexist st g)) = 0"
  by (simp_all add: doReset_coexist_def init_coexist_def split: prod.splits)

lemma runBatch_coexist_extinct:
  assumes "state st = Running" and "runBatch_coexist st g = Some (Ok (st', g'))"
    and "theCensus st' ''olive'' = Some (Num 0) \<or> theCensus st' ''orange'' = Some (Num 0)"
  shows "stepCount st' = stepCount st + batchSize"
    "stepCount st' mod 500000 \<noteq> 0 \<Longrightarrow> state st' = Done \<and> \<not> timer st' \<and> buttonDisabled st'
        \<and> doStartStop_coexist st' = st'"
    "stepCount st' mod 500000 = 0 \<Longrightarrow> state st' = Paused \<and> \<not> timer st'
        \<and> buttonDisabled st' = buttonDisabled st
        \<and> state (doStartStop_coexist st') = Running \<and> timer (doStartStop_coexist st')"
proof -
  obtain s1 where l: "forLoopOpt 0 batchSize (\<lambda>(st, g). replaceTree_coexist st g) (st, g) = Some (Ok (s1, g'))"
    and e: "st' = batchEnd_coexist s1"
    using runBatch_coexist_OkD [OF assms(2)] by blast
  note gl = batch_coexist_globals [OF l]
  have r: "state s1 = Running" using gl assms(1) by simp
  have x: "theCensus s1 ''olive'' = Some (Num 0) \<or> theCensus s1 ''orange'' = Some (Num 0)"
    using assms(3) e by (simp add: batchEnd_coexist_census)
  show "stepCount st' = stepCount st + batchSize"
    using gl e by (simp add: batchEnd_coexist_census)
  show "state st' = Done \<and> \<not> timer st' \<and> buttonDisabled st' \<and> doStartStop_coexist st' = st'"
    if "stepCount st' mod 500000 \<noteq> 0"
    using that e batchEnd_coexist_extinct(1) [OF r x]
    by (simp add: batchEnd_coexist_census doStartStop_coexist_def)
  show "state st' = Paused \<and> \<not> timer st' \<and> buttonDisabled st' = buttonDisabled st
      \<and> state (doStartStop_coexist st') = Running \<and> timer (doStartStop_coexist st')"
    if "stepCount st' mod 500000 = 0"
    using that e batchEnd_coexist_extinct(2) [OF r x] gl
    by (simp add: batchEnd_coexist_census doStartStop_coexist_def)
qed

text \<open>The run of one batch from the state with a last olive tree, at any clock.\<close>

lemma lastOlive_run:
  "\<exists>st' g'. runBatch_coexist (lastOlive\<lparr>stepCount := c\<rparr>) lastOliveDraws = Some (Ok (st', g'))
     \<and> theCensus st' ''olive'' = Some (Num 0) \<and> stepCount st' = c + 40
     \<and> state st' = (if (c + 40) mod 500000 = 0 then Paused else Done)"
proof -
  let ?s0 = "lastOlive\<lparr>stepCount := c\<rparr>"
  let ?J = "\<lambda>(s :: coexist) (g :: rand). g = (\<lambda>k. 0) \<and> theForest s \<noteq> []
      \<and> species (theForest s ! 0) = Str ''orange''
      \<and> theCensus s ''olive'' = Some (Num 0) \<and> theCensus s ''orange'' = Some (Num 625)
      \<and> calcium s = Num 50 \<and> state s = Running"
  let ?I = "\<lambda>k (p :: coexist \<times> rand). (k = 0 \<and> p = (?s0, lastOliveDraws))
      \<or> (0 < k \<and> ?J (fst p) (snd p) \<and> stepCount (fst p) = c + k)"
  have z: "unit_draws (\<lambda>k. 0)" by (simp add: unit_draws_def)
  have first: "\<exists>s'. replaceTree_coexist ?s0 lastOliveDraws = Some (Ok s') \<and> ?I 1 s'"
  proof -
    have ne: "theForest ?s0 \<noteq> []" using lastOlive_facts(3) by simp
    have acc: "accepted ?s0 lastOliveDraws 0"
      using lastOlive_accepted(1)
      by (simp add: accepted_def candidate_def oliveFactor_def orangeFactor_def)
    have sh: "(\<lambda>k. lastOliveDraws (k + (2 * 0 + 3))) = (\<lambda>k. 0)"
      by (simp add: lastOliveDraws_def)
    have d: "nat \<lfloor>lastOliveDraws 0 * real (length (theForest ?s0))\<rfloor> = 0"
      by (simp add: lastOliveDraws_def)
    have cd: "species (candidate ?s0 lastOliveDraws 0) = Str ''orange''"
      using lastOlive_accepted(4) by (simp add: candidate_def)
    show ?thesis
      using replaceTree_coexist_accept [OF lastOlive_facts(1) ne acc] ne lastOlive_facts(4,5)
      unfolding sh d cd
      by (simp add: increment_def decrement_def to_num_def) (simp add: lastOlive_def)
  qed
  have later: "\<exists>s'. replaceTree_coexist s (\<lambda>k. 0) = Some (Ok s') \<and> ?J (fst s') (snd s')
      \<and> stepCount (fst s') = stepCount s + 1" if j: "?J s (\<lambda>k. 0)" for s
  proof -
    have ne: "theForest s \<noteq> []" using j by simp
    have cd: "candidate s (\<lambda>k. 0) 0 = theForest s ! 0" by (simp add: candidate_def)
    have acc: "accepted s (\<lambda>k. 0) 0"
      using j by (simp add: accepted_def cd bias_def orangeFactor_def to_num_def poachingCoef_def)
    show ?thesis
      using replaceTree_coexist_accept [OF z ne acc] j
      by (simp add: cd increment_def decrement_def to_num_def)
  qed
  have "\<exists>p. forLoopOpt 0 batchSize (\<lambda>(st, g). replaceTree_coexist st g) (?s0, lastOliveDraws) = Some (Ok p)
      \<and> ?I batchSize p"
  proof (rule forLoopOpt_run [where I = ?I])
    show "?I 0 (?s0, lastOliveDraws)" by simp
  next
    fix k s
    assume i: "?I k s"
    show "\<exists>s'. (case s of (st, g) \<Rightarrow> replaceTree_coexist st g) = Some (Ok s') \<and> ?I (k + 1) s'"
    proof (cases "k = 0")
      case True
      then show ?thesis using i first by simp
    next
      case False
      obtain a h where s: "s = (a, h)" by (cases s)
      have j: "?J a (\<lambda>k. 0)" "h = (\<lambda>k. 0)" "stepCount a = c + k" using i False s by simp_all
      show ?thesis using later [OF j(1)] j(2,3) s by auto
    qed
  qed simp
  then obtain s1 g1 where
    l: "forLoopOpt 0 batchSize (\<lambda>(st, g). replaceTree_coexist st g) (?s0, lastOliveDraws) = Some (Ok (s1, g1))"
    and i: "?I batchSize (s1, g1)" by auto
  have p: "state s1 = Running" "theCensus s1 ''olive'' = Some (Num 0)" "stepCount s1 = c + 40"
    using i by (simp_all add: batchSize_def)
  have "runBatch_coexist ?s0 lastOliveDraws = Some (Ok (batchEnd_coexist s1, g1))"
    using l by (simp add: runBatch_coexist_def)
  moreover have "state (batchEnd_coexist s1) = (if (c + 40) mod 500000 = 0 then Paused else Done)"
    using p batchEnd_coexist_extinct [of s1] by auto
  ultimately show ?thesis using p by (simp add: batchEnd_coexist_census)
qed

text \<open>
  C4, amended. In the coexist program, take a batch that is run in state running and
  at whose end the census count of one species is zero. When the clock at the end of
  the batch is not a multiple of 500000, the state becomes done: the timer is cleared,
  the button is disabled, \<^verbatim>\<open>doStartStop\<close> changes nothing any more, and \<^verbatim>\<open>doReset\<close>
  leads back to idle with the button enabled. When the clock at the end of the batch is
  a multiple of 500000, \<^verbatim>\<open>runBatch\<close> gives the step ceiling priority: the state
  becomes paused, and \<^verbatim>\<open>doStartStop\<close> resumes the run.
\<close>

theorem extinction_transition:
  assumes "state st = Running" and "runBatch_coexist st g = Some (Ok (st', g'))"
    and "theCensus st' ''olive'' = Some (Num 0) \<or> theCensus st' ''orange'' = Some (Num 0)"
  shows "(stepCount st' mod 500000 \<noteq> 0 \<longrightarrow>
            state st' = Done \<and> \<not> timer st' \<and> buttonDisabled st'
          \<and> doStartStop_coexist st' = st'
          \<and> state (fst (doReset_coexist st' r)) = Idle
          \<and> \<not> buttonDisabled (fst (doReset_coexist st' r)))
    \<and> (stepCount st' mod 500000 = 0 \<longrightarrow>
            state st' = Paused \<and> \<not> timer st'
          \<and> state (doStartStop_coexist st') = Running \<and> timer (doStartStop_coexist st'))"
proof -
  note a = runBatch_coexist_extinct(2,3) [OF assms]
  note b = doReset_coexist_state(1,2) [of st' r]
  show ?thesis
  proof (cases "stepCount st' mod 500000 = 0")
    case True
    then show ?thesis using a(2) by simp
  next
    case False
    then show ?thesis using a(1) b by simp
  qed
qed

theorem extinction_transition_witness:
  "state (lastOlive\<lparr>stepCount := 0\<rparr>) = Running \<and> state lastOlive = Running
   \<and> (\<exists>st' g'. runBatch_coexist (lastOlive\<lparr>stepCount := 0\<rparr>) lastOliveDraws = Some (Ok (st', g'))
         \<and> theCensus st' ''olive'' = Some (Num 0) \<and> stepCount st' mod 500000 \<noteq> 0
         \<and> state st' = Done \<and> doStartStop_coexist st' = st')
   \<and> (\<exists>st' g'. runBatch_coexist lastOlive lastOliveDraws = Some (Ok (st', g'))
         \<and> theCensus st' ''olive'' = Some (Num 0) \<and> stepCount st' mod 500000 = 0
         \<and> state st' = Paused \<and> state (doStartStop_coexist st') = Running)"
proof -
  have r: "state (lastOlive\<lparr>stepCount := 0\<rparr>) = Running" "state lastOlive = Running"
    by (simp_all add: lastOlive_def)
  have e: "lastOlive\<lparr>stepCount := 499960\<rparr> = lastOlive" by (simp add: lastOlive_def)
  obtain a g1 where a: "runBatch_coexist (lastOlive\<lparr>stepCount := 0\<rparr>) lastOliveDraws = Some (Ok (a, g1))"
    "theCensus a ''olive'' = Some (Num 0)" "stepCount a = 40"
    using lastOlive_run [of 0] by auto
  obtain b g2 where b: "runBatch_coexist lastOlive lastOliveDraws = Some (Ok (b, g2))"
    "theCensus b ''olive'' = Some (Num 0)" "stepCount b = 500000"
    using lastOlive_run [of 499960] unfolding e by auto
  from extinction_transition [OF r(1) a(1) disjI1 [OF a(2)]]
    extinction_transition [OF r(2) b(1) disjI1 [OF b(2)]] r a b
  show ?thesis by simp
qed

text \<open>
  C4 as stated fails when extinction and the step ceiling coincide: from a running
  state at step 499960 with one olive tree left, a batch in whose first step that tree
  is replaced by an orange one ends at step 500000 with no olive tree, and the state is
  paused, not done.
\<close>

theorem extinction_at_ceiling_counterexample:
  "state lastOlive = Running
   \<and> (case runBatch_coexist lastOlive lastOliveDraws of
        Some (Ok (st', g')) \<Rightarrow>
          theCensus st' ''olive'' = Some (Num 0) \<and> stepCount st' = 500000
          \<and> state st' = Paused \<and> state st' \<noteq> Done
      | _ \<Rightarrow> False)"
proof -
  have e: "lastOlive\<lparr>stepCount := 499960\<rparr> = lastOlive" by (simp add: lastOlive_def)
  obtain b g2 where b: "runBatch_coexist lastOlive lastOliveDraws = Some (Ok (b, g2))"
    "theCensus b ''olive'' = Some (Num 0)" "stepCount b = 500000" "state b = Paused"
    using lastOlive_run [of 499960] unfolding e by auto
  then show ?thesis by (simp add: lastOlive_def)
qed

section \<open>The torus and the scan of the socialdx program\<close>

lemma modAdd_mod:
  assumes "0 \<le> a" "a < m" "- m \<le> b" "b \<le> m"
  shows "modAdd a b m = (a + b) mod m"
proof -
  consider "a + b < 0" | "m \<le> a + b" | "0 \<le> a + b" "a + b < m" by linarith
  then show ?thesis
  proof cases
    case 1
    have "(a + b) mod m = (a + b + m) mod m" by simp
    also have "\<dots> = a + b + m" using 1 assms by (intro mod_pos_pos_trivial) linarith+
    finally show ?thesis using 1 by (simp add: modAdd_def)
  next
    case 2
    have "(a + b) mod m = (a + b - m) mod m" by simp
    also have "\<dots> = a + b - m" using 2 assms by (intro mod_pos_pos_trivial) linarith+
    finally show ?thesis using 2 assms by (simp add: modAdd_def)
  next
    case 3
    then show ?thesis by (simp add: modAdd_def)
  qed
qed

lemma torus_less:
  assumes "0 < s"
  shows "torus s i h v < s * s"
proof -
  let ?c = "(int (i mod s) + h) mod int s"
  let ?r = "(int (i div s) + v) mod int s"
  have c: "0 \<le> ?c" "?c < int s" using assms by simp_all
  have r: "0 \<le> ?r" "?r < int s" using assms by simp_all
  have "?r + 1 \<le> int s" using r by simp
  then have "(?r + 1) * int s \<le> int s * int s" by (intro mult_right_mono) simp_all
  then have "?c + ?r * int s < int s * int s" using c by (simp add: algebra_simps)
  moreover have "0 \<le> ?c + ?r * int s" using c r by simp
  ultimately show ?thesis unfolding torus_def
    by (metis (no_types, lifting) nat_less_iff of_nat_mult)
qed

lemma torus_int:
  assumes "0 < s"
  shows "int (torus s i h v) = (int (i mod s) + h) mod int s + ((int (i div s) + v) mod int s) * int s"
proof -
  have "0 \<le> (int (i mod s) + h) mod int s" "0 \<le> (int (i div s) + v) mod int s"
    using assms by simp_all
  then have "0 \<le> (int (i mod s) + h) mod int s + ((int (i div s) + v) mod int s) * int s"
    by simp
  then show ?thesis by (simp add: torus_def)
qed

lemma listNeighbors_torus:
  assumes "0 < s" "i < s * s" "col t = i mod s" "row t = i div s" "neighborTrees t = []"
  shows "neighborTrees (listNeighbors s t) = map int (neighbors s i)"
proof -
  have r: "i div s < s" using assms(2) by (simp add: less_mult_imp_div_less)
  have mc: "modAdd (int (i mod s)) h (int s) = (int (i mod s) + h) mod int s"
    if "h \<in> {-1, 0, 1}" for h
    using that assms(1) by (intro modAdd_mod) auto
  have mr: "modAdd (int (i div s)) h (int s) = (int (i div s) + h) mod int s"
    if "h \<in> {-1, 0, 1}" for h
    using that assms(1) r by (intro modAdd_mod) auto
  show ?thesis
    using assms(3,4,5)
    by (simp add: listNeighbors_def neighbors_def colRowToIndex_def torus_int [OF assms(1)] mc mr)
qed

lemma treeLoop_coords:
  assumes "0 < s" "c = i mod s" "r = i div s" "length tv = i"
    "\<forall>k<length tv. Q k (tv ! k)" "\<And>k sp. Q k (newTree k (k mod s) (k div s) sp)"
    "treeLoop newTree names s n i c r tv c0 g = (tv', c', g')"
  shows "\<forall>k<length tv'. Q k (tv' ! k)"
  using assms
proof (induction newTree names s n i c r tv c0 g rule: treeLoop.induct)
  case (1 newTree names s n i c r tv c0 g)
  show ?case
  proof (cases "i < n")
    case False
    then show ?thesis using "1.prems" by (simp add: treeLoop.simps)
  next
    case True
    define t where "t = newTree i c r (fst (randomSpecies names g))"
    have q: "Q i t" using "1.prems"(2,3,6) by (simp add: t_def)
    have a: "\<forall>k<length (tv @ [t]). Q k ((tv @ [t]) ! k)"
      using "1.prems"(4,5) q by (auto simp: nth_append less_Suc_eq)
    have c2: "(if c + 1 \<ge> s then 0 else c + 1) = (i + 1) mod s"
      using "1.prems"(1,2) mod_less_divisor [OF "1.prems"(1), of i] by (auto simp: mod_Suc)
    have r2: "(if c + 1 \<ge> s then r + 1 else r) = (i + 1) div s"
      using "1.prems"(1,2,3) mod_less_divisor [OF "1.prems"(1), of i]
      by (auto simp: div_Suc mod_Suc)
    have eq: "treeLoop newTree names s n (i + 1) (if c + 1 \<ge> s then 0 else c + 1)
        (if c + 1 \<ge> s then r + 1 else r) (tv @ [t]) (increment c0 (key (species t)))
        (snd (randomSpecies names g)) = (tv', c', g')"
      using "1.prems"(7) True
      by (subst (asm) treeLoop.simps) (auto simp add: Let_def t_def split: if_splits)
    show ?thesis
      by (rule "1.IH" [OF True t_def refl refl refl "1.prems"(1) c2 r2 _ a "1.prems"(6) eq])
         (use "1.prems"(4) in simp)
  qed
qed

lemma newForest_wellFormed:
  assumes "names \<noteq> []" "unit_draws g" "0 < s" "newForest s names clock g = (f, g')"
  shows "wellFormed names f \<and> forest_s f = s \<and> treeNames f = names \<and> unit_draws g'"
proof -
  let ?new = "\<lambda>i c r sp. \<lparr>col = c, row = r, species = sp, birthdate = clock, idx = i,
                 neighborTrees = [], neighborSpecies = {}\<rparr>"
  obtain tv c where tl: "treeLoop ?new names s (square s) 0 0 0 [] (zeroCounts names) g = (tv, c, g')"
    and f: "f = \<lparr>forest_s = s, forest_N = square s, trees = map (listNeighbors s) tv,
            treeNames = names, census = c\<rparr>"
    using assms(4) by (auto simp: newForest_def split: prod.splits)
  note inv = newForest_inv [OF assms(1,2,4)]
  have len: "length tv = s * s" using inv f by simp
  have co: "\<forall>k<length tv. col (tv ! k) = k mod s \<and> row (tv ! k) = k div s \<and> neighborTrees (tv ! k) = []"
    by (rule treeLoop_coords [where Q = "\<lambda>k t. col t = k mod s \<and> row t = k div s \<and> neighborTrees t = []",
          OF assms(3) _ _ _ _ _ tl]) simp_all
  have nb: "col (trees f ! i) = i mod s \<and> row (trees f ! i) = i div s
      \<and> neighborTrees (trees f ! i) = map int (neighbors s i)" if "i < length (trees f)" for i
  proof -
    have i: "i < length tv" "i < s * s" using that f len by simp_all
    have "neighborTrees (listNeighbors s (tv ! i)) = map int (neighbors s i)"
      by (rule listNeighbors_torus [OF assms(3) i(2)]) (use co i(1) in simp_all)
    moreover have "col (listNeighbors s (tv ! i)) = i mod s" "row (listNeighbors s (tv ! i)) = i div s"
      using co i(1) by (simp_all add: listNeighbors_def)
    ultimately show ?thesis using f i(1) by simp
  qed
  have "wellFormed names f"
    unfolding wellFormed_def using inv nb f assms(3)
    by (auto simp: labelled_def square_def)
  then show ?thesis using inv by simp
qed

lemma neighborLoop_eq:
  assumes "\<forall>j \<in> set js. j < length ts"
  shows "neighborLoop ts (map int js) acc =
    Ok (acc \<union> set (map (\<lambda>j. key (species (ts ! j))) (filter (\<lambda>j. truthy (species (ts ! j))) js)))"
  using assms by (induction js arbitrary: acc) (auto simp: element_def)

lemma scan_eq:
  assumes "length (trees f) = forest_N f" "start < forest_N f" "i \<le> forest_N f"
  shows "scan f ns (int start) i =
    Ok (case find (\<lambda>k. truthy (species (scanned f start k)) \<and> key (species (scanned f start k)) \<notin> ns)
              [i..<forest_N f] of
          None \<Rightarrow> Null
        | Some k \<Rightarrow> species (scanned f start k))"
  using assms
proof (induction f ns "int start" i rule: scan.induct)
  case (1 f ns i)
  show ?case
  proof (cases "i < forest_N f")
    case False
    then show ?thesis by (simp add: scan.simps)
  next
    case True
    have m: "modAdd (int start) (int i) (int (forest_N f)) = int ((start + i) mod forest_N f)"
      using True "1.prems"(2) by (subst modAdd_mod) (simp_all add: zmod_int)
    have e: "element (trees f) (int ((start + i) mod forest_N f)) = Some (scanned f start i)"
      using True "1.prems"(1) by (simp add: element_def scanned_def)
    show ?thesis
    proof (cases "truthy (species (scanned f start i)) \<and> key (species (scanned f start i)) \<notin> ns")
      case yes: True
      then show ?thesis using True m e
        by (subst scan.simps) (simp add: upt_conv_Cons)
    next
      case no: False
      have "scan f ns (int start) i = scan f ns (int start) (i + 1)"
        using True m e no by (subst scan.simps) auto
      also have "\<dots> = Ok (case find (\<lambda>k. truthy (species (scanned f start k))
            \<and> key (species (scanned f start k)) \<notin> ns) [i + 1..<forest_N f] of
          None \<Rightarrow> Null | Some k \<Rightarrow> species (scanned f start k))"
        using "1.hyps" [OF True e [unfolded m [symmetric]]] no "1.prems" True by simp
      finally show ?thesis using True no by (auto simp: upt_conv_Cons)
    qed
  qed
qed

lemma wellFormed_species:
  assumes "wellFormed names f" "validNames names" "i < forest_N f"
  shows "truthy (species (trees f ! i)) \<longleftrightarrow> species (trees f ! i) \<noteq> Null"
    "species (trees f ! i) = Null \<or> (\<exists>sp \<in> set names. species (trees f ! i) = Str sp)"
proof -
  have "trees f ! i \<in> set (trees f)" using assms(1,3) by (simp add: wellFormed_def)
  then show b: "species (trees f ! i) = Null \<or> (\<exists>sp \<in> set names. species (trees f ! i) = Str sp)"
    using assms(1) by (simp add: wellFormed_def)
  then show "truthy (species (trees f ! i)) \<longleftrightarrow> species (trees f ! i) \<noteq> Null"
    using assms(2) by (auto simp: validNames_def)
qed

lemma neighbors_less:
  assumes "0 < s" "j \<in> set (neighbors s i)"
  shows "j < s * s"
  using assms torus_less [OF assms(1)] by (auto simp: neighbors_def)

lemma listNeighborSpecies_eq:
  assumes "wellFormed names f" "validNames names" "d < forest_N f"
  shows "listNeighborSpecies f (trees f ! d) = Ok (neighborhoodSpecies f d)"
proof -
  have s: "0 < forest_s f" "forest_N f = forest_s f * forest_s f" "length (trees f) = forest_N f"
    using assms(1) by (simp_all add: wellFormed_def)
  have n: "neighborTrees (trees f ! d) = map int (neighbors (forest_s f) d)"
    using assms(1,3) by (simp add: wellFormed_def)
  have r: "\<forall>j \<in> set (neighbors (forest_s f) d). j < length (trees f)"
    using neighbors_less [OF s(1)] s by simp
  have t: "filter (\<lambda>j. truthy (species (trees f ! j))) (neighbors (forest_s f) d) =
      filter (\<lambda>j. species (trees f ! j) \<noteq> Null) (neighbors (forest_s f) d)"
    using wellFormed_species(1) [OF assms(1,2)] r s by (intro filter_cong) auto
  show ?thesis
    by (simp add: listNeighborSpecies_def n neighborLoop_eq [OF r] t neighborhoodSpecies_def)
qed

lemma scanned_index:
  assumes "0 < forest_N f"
  shows "(start + k) mod forest_N f < forest_N f"
  using assms by simp

lemma scan_arrival:
  assumes "wellFormed names f" "validNames names" "start < forest_N f"
  shows "scan f (neighborhoodSpecies f d) (int start) 0 = Ok (arrival f d start)"
proof -
  have s: "length (trees f) = forest_N f" "0 < forest_N f"
    using assms(1) by (simp_all add: wellFormed_def)
  have "(\<lambda>k. truthy (species (scanned f start k))
        \<and> key (species (scanned f start k)) \<notin> neighborhoodSpecies f d) = eligible f d start"
    using wellFormed_species(1) [OF assms(1,2) scanned_index [OF s(2)]]
    by (auto simp: eligible_def scanned_def fun_eq_iff)
  then show ?thesis
    using scan_eq [OF s(1) assms(3), of 0 "neighborhoodSpecies f d"] by (simp add: arrival_def)
qed

lemma arrival_cases:
  assumes "wellFormed names f" "validNames names"
  shows "arrival f d start = Null \<or> (\<exists>sp \<in> set names. arrival f d start = Str sp \<and> sp \<noteq> [])"
proof (cases "find (eligible f d start) [0..<forest_N f]")
  case None
  then show ?thesis by (simp add: arrival_def)
next
  case (Some k)
  have s: "0 < forest_N f" using assms(1) by (simp add: wellFormed_def)
  have "arrival f d start = species (trees f ! ((start + k) mod forest_N f))"
    using Some by (simp add: arrival_def scanned_def)
  then show ?thesis
    using wellFormed_species(2) [OF assms scanned_index [OF s], of start k] assms(2)
    by (auto simp: validNames_def)
qed

lemma replaceTree_sdx_eq:
  assumes "wellFormed names (theForest_sdx st)" "validNames names" "unit_draws g"
  shows "replaceTree_sdx st g =
    Ok (st\<lparr>theForest_sdx := replaced (theForest_sdx st)
              (nat \<lfloor>g 0 * real (forest_N (theForest_sdx st))\<rfloor>)
              (nat \<lfloor>g 1 * real (forest_N (theForest_sdx st))\<rfloor>),
           stepCount := stepCount st + 1\<rparr>, \<lambda>k. g (k + 2))"
proof -
  let ?f = "theForest_sdx st"
  let ?d = "\<lfloor>g 0 * real (forest_N ?f)\<rfloor>"
  let ?s = "\<lfloor>g 1 * real (forest_N ?f)\<rfloor>"
  have w: "length (trees ?f) = forest_N ?f" "0 < forest_N ?f" "trees ?f \<noteq> []"
    using assms(1) by (auto simp: wellFormed_def)
  have d: "0 \<le> ?d" "?d < int (length (trees ?f))" "nat ?d < forest_N ?f"
    using draw_in_range [OF assms(3) w(3), of 0] w(1) by simp_all
  have s: "0 \<le> ?s" "nat ?s < forest_N ?f"
    using draw_in_range [OF assms(3) w(3), of 1] w(1) by simp_all
  have e: "element (trees ?f) ?d = Some (trees ?f ! nat ?d)"
    using d by (simp add: element_def)
  have n: "listNeighborSpecies ?f (trees ?f ! nat ?d) = Ok (neighborhoodSpecies ?f (nat ?d))"
    by (rule listNeighborSpecies_eq [OF assms(1,2) d(3)])
  have c: "scan ?f (neighborhoodSpecies ?f (nat ?d)) ?s 0 = Ok (arrival ?f (nat ?d) (nat ?s))"
    using scan_arrival [OF assms(1,2) s(2), of "nat ?d"] s(1) by simp
  have t: "truthy (arrival ?f (nat ?d) (nat ?s)) \<longleftrightarrow> arrival ?f (nat ?d) (nat ?s) \<noteq> Null"
    using arrival_cases [OF assms(1,2), of "nat ?d" "nat ?s"] by auto
  show ?thesis
    using e n c t
    by (simp add: replaceTree_sdx_def Let_def random_shift w(1) replaced_def)
qed

lemma wellFormed_replaced:
  assumes "wellFormed names f" "validNames names" "d < forest_N f"
  shows "wellFormed names (replaced f d start)"
proof -
  let ?a = "arrival f d start"
  let ?t' = "(trees f ! d)\<lparr>neighborSpecies := neighborhoodSpecies f d, species := ?a\<rparr>"
  have w: "length (trees f) = forest_N f" "counted names (trees f) (census f)"
    using assms(1) by (simp_all add: wellFormed_def)
  have dl: "d < length (trees f)" using assms(3) w(1) by simp
  have dep: "(\<exists>x. species (trees f ! d) = Str x) \<or> key (species (trees f ! d)) \<notin> set names"
    using wellFormed_species(2) [OF assms] assms(2) by (auto simp: validNames_def)
  have a: "?a = Null \<or> (\<exists>sp \<in> set names. ?a = Str sp \<and> sp \<noteq> [])"
    by (rule arrival_cases [OF assms(1,2)])
  have cnt: "counted names (trees (replaced f d start)) (census (replaced f d start))"
  proof (cases "?a = Null")
    case True
    have "counted names ((trees f)[d := ?t']) (decrement (census f) (key (species (trees f ! d))))"
      by (rule counted_vacate [OF w(2) dl dep]) (simp add: True)
    then show ?thesis using True by (simp add: replaced_def)
  next
    case False
    have "counted names ((trees f)[d := ?t'])
        (increment (decrement (census f) (key (species (trees f ! d)))) (key (species ?t')))"
      by (rule counted_replace [OF w(2) dl dep]) (use a False in auto)
    then show ?thesis using False by (simp add: replaced_def)
  qed
  have sp: "\<forall>t \<in> set (trees (replaced f d start)).
      species t = Null \<or> (\<exists>sp \<in> set names. species t = Str sp)"
  proof
    fix t assume "t \<in> set (trees (replaced f d start))"
    then have "t = ?t' \<or> t \<in> set (trees f)"
      using set_update_subset_insert [of "trees f" d ?t'] by (auto simp: replaced_def)
    then show "species t = Null \<or> (\<exists>sp \<in> set names. species t = Str sp)"
      using a assms(1) by (auto simp: wellFormed_def)
  qed
  have nb: "col (trees (replaced f d start) ! i) = col (trees f ! i)
      \<and> row (trees (replaced f d start) ! i) = row (trees f ! i)
      \<and> neighborTrees (trees (replaced f d start) ! i) = neighborTrees (trees f ! i)"
    if "i < length (trees f)" for i
    using that by (cases "i = d") (simp_all add: replaced_def)
  show ?thesis
    unfolding wellFormed_def
    using assms(1) cnt sp nb by (simp add: wellFormed_def replaced_def)
qed

lemma replaced_fields:
  "forest_s (replaced f d start) = forest_s f" "forest_N (replaced f d start) = forest_N f"
  "length (trees (replaced f d start)) = length (trees f)"
  "d < length (trees f) \<Longrightarrow> species (trees (replaced f d start) ! d) = arrival f d start"
  "i \<noteq> d \<Longrightarrow> trees (replaced f d start) ! i = trees f ! i"
  by (simp_all add: replaced_def)

lemma arrival_first:
  assumes "k < forest_N f" "eligible f d start k" "\<forall>i<k. \<not> eligible f d start i"
  shows "arrival f d start = species (scanned f start k)"
proof -
  have "find (eligible f d start) [0..<forest_N f] = Some k"
    using assms by (auto simp: find_Some_iff intro!: exI [of _ k])
  then show ?thesis by (simp add: arrival_def)
qed

lemma arrival_none:
  assumes "\<forall>k<forest_N f. \<not> eligible f d start k"
  shows "arrival f d start = Null"
proof -
  have "find (eligible f d start) [0..<forest_N f] = None"
    using assms by (simp add: find_None_iff)
  then show ?thesis by (simp add: arrival_def)
qed

lemma arrival_eligible:
  assumes "arrival f d start \<noteq> Null"
  shows "\<exists>k<forest_N f. eligible f d start k \<and> (\<forall>i<k. \<not> eligible f d start i)
    \<and> arrival f d start = species (scanned f start k)"
proof -
  obtain k where k: "find (eligible f d start) [0..<forest_N f] = Some k"
    using assms by (auto simp: arrival_def split: option.splits)
  then have "k < forest_N f \<and> eligible f d start k \<and> (\<forall>i<k. \<not> eligible f d start i)"
    by (auto simp: find_Some_iff)
  then show ?thesis using k by (auto simp: arrival_def)
qed

lemma arrival_not_neighbor:
  assumes "arrival f d start \<noteq> Null" "h \<in> {-1, 0, 1}" "v \<in> {-1, 0, 1}"
  shows "species (trees f ! torus (forest_s f) d h v) \<noteq> arrival f d start"
proof
  assume eq: "species (trees f ! torus (forest_s f) d h v) = arrival f d start"
  obtain k where k: "eligible f d start k" "arrival f d start = species (scanned f start k)"
    using arrival_eligible [OF assms(1)] by blast
  have "torus (forest_s f) d h v \<in> set (neighbors (forest_s f) d)"
    using assms(2,3) by (auto simp: neighbors_def)
  then have "key (arrival f d start) \<in> neighborhoodSpecies f d"
    using eq assms(1) by (force simp: neighborhoodSpecies_def)
  then show False using k by (simp add: eligible_def)
qed

lemma mod3_cover:
  fixes x y :: int
  assumes "0 \<le> y" "y < 3"
  shows "\<exists>h\<in>{-1, 0, 1}. (x + h) mod 3 = y"
proof -
  have m: "0 \<le> x mod 3" "x mod 3 < 3" by simp_all
  have e1: "(x + (-1)) mod 3 = (x mod 3 - 1) mod 3" by (simp add: mod_diff_left_eq)
  have e2: "(x + 1) mod 3 = (x mod 3 + 1) mod 3" by (simp add: mod_add_left_eq)
  have y: "y = 0 \<or> y = 1 \<or> y = 2" using assms by linarith
  have xm: "x mod 3 = 0 \<or> x mod 3 = 1 \<or> x mod 3 = 2" using m by linarith
  have "(x + (-1)) mod 3 = y \<or> (x + 0) mod 3 = y \<or> (x + 1) mod 3 = y"
    using y xm unfolding e1 e2 by auto
  then show ?thesis by blast
qed

lemma torus3_cover:
  assumes "k < 9"
  shows "\<exists>h\<in>{-1, 0, 1}. \<exists>v\<in>{-1, 0, 1}. torus 3 d h v = k"
proof -
  have c: "0 \<le> int (k mod 3)" "int (k mod 3) < 3" by simp_all
  have r: "0 \<le> int (k div 3)" "int (k div 3) < 3" using assms by simp_all
  obtain h where h: "h \<in> {-1, 0, 1}" "(int (d mod 3) + h) mod 3 = int (k mod 3)"
    using mod3_cover [OF c, of "int (d mod 3)"] by blast
  obtain v where v: "v \<in> {-1, 0, 1}" "(int (d div 3) + v) mod 3 = int (k div 3)"
    using mod3_cover [OF r, of "int (d div 3)"] by blast
  have "torus 3 d h v = nat (int (k mod 3) + int (k div 3) * 3)"
    using h(2) v(2) by (simp add: torus_def)
  also have "\<dots> = k mod 3 + k div 3 * 3" by (simp add: nat_add_distrib nat_mult_distrib)
  also have "\<dots> = k" by simp
  finally show ?thesis using h(1) v(1) by blast
qed

lemma three_by_three_none:
  assumes "wellFormed names f" "forest_s f = 3" "k < forest_N f"
  shows "\<not> eligible f d start k"
proof
  assume e: "eligible f d start k"
  have n: "forest_N f = 9" "length (trees f) = 9" using assms(1,2) by (simp_all add: wellFormed_def)
  let ?j = "(start + k) mod forest_N f"
  have j: "?j < 9" using n by simp
  obtain h v where hv: "h \<in> {-1, 0, 1}" "v \<in> {-1, 0, 1}" "torus 3 d h v = ?j"
    using torus3_cover [OF j, of d] by blast
  have "?j \<in> set (neighbors 3 d)"
    using hv by (auto simp: neighbors_def)
  moreover have "species (trees f ! ?j) \<noteq> Null"
    using e by (simp add: eligible_def scanned_def)
  ultimately have "key (species (trees f ! ?j)) \<in> neighborhoodSpecies f d"
    using assms(2) by (force simp: neighborhoodSpecies_def)
  then show False using e by (simp add: eligible_def scanned_def)
qed

lemma decrement_other: "k \<noteq> k' \<Longrightarrow> decrement c k' k = c k"
  by (simp add: decrement_def)

lemma step_sdx:
  assumes "wellFormed names (theForest_sdx st)" "validNames names" "unit_draws g"
    "f = theForest_sdx st"
    "d = nat \<lfloor>g 0 * real (forest_N f)\<rfloor>" "start = nat \<lfloor>g 1 * real (forest_N f)\<rfloor>"
  shows "replaceTree_sdx st g =
      Ok (st\<lparr>theForest_sdx := replaced f d start, stepCount := stepCount st + 1\<rparr>, \<lambda>k. g (k + 2))"
    "d < forest_N f" "d < length (trees f)" "start < forest_N f"
    "wellFormed names (replaced f d start)"
proof -
  have w: "length (trees f) = forest_N f" "trees f \<noteq> []"
    using assms(1,4) by (auto simp: wellFormed_def)
  show "replaceTree_sdx st g =
      Ok (st\<lparr>theForest_sdx := replaced f d start, stepCount := stepCount st + 1\<rparr>, \<lambda>k. g (k + 2))"
    using replaceTree_sdx_eq [OF assms(1,2,3)] assms(4,5,6) by simp
  show d: "d < forest_N f" using draw_in_range(3) [OF assms(3) w(2), of 0] w(1) assms(5) by simp
  then show "d < length (trees f)" using w(1) by simp
  show "start < forest_N f" using draw_in_range(3) [OF assms(3) w(2), of 1] w(1) assms(6) by simp
  show "wellFormed names (replaced f d start)"
    using wellFormed_replaced [OF _ assms(2) d] assms(1,4) by simp
qed

text \<open>
  C2. In the socialdx program a replacement gives the departing site (selected by the
  first draw) the arriving species \<open>arrival\<close>: the species of the first tree, in the
  circular scan of the array that starts at the index selected by the second draw,
  that is not vacant and whose species is not among the species of the nine trees
  around the departing site before the departure; none when there is no such tree. So
  an arriving species differs from the species of each of the nine trees, the eight
  neighbors on the torus among them, at the moment of replacement.
  The forest is well formed, as the constructor builds it (\<open>newForest_wellFormed\<close>)
  and every replacement keeps it (\<open>step_sdx\<close>), and the species names are valid.
\<close>

theorem neighbor_exclusion:
  assumes "wellFormed names (theForest_sdx st)" and "validNames names" and "unit_draws g"
    and "f = theForest_sdx st"
    and "d = nat \<lfloor>g 0 * real (forest_N f)\<rfloor>" and "start = nat \<lfloor>g 1 * real (forest_N f)\<rfloor>"
    and "replaceTree_sdx st g = Ok (st', g')"
  shows "species (trees (theForest_sdx st') ! d) = arrival f d start
    \<and> (\<forall>k<forest_N f. eligible f d start k \<and> (\<forall>i<k. \<not> eligible f d start i) \<longrightarrow>
          arrival f d start = species (scanned f start k))
    \<and> ((\<forall>k<forest_N f. \<not> eligible f d start k) \<longrightarrow> arrival f d start = Null)
    \<and> (arrival f d start \<noteq> Null \<longrightarrow>
          (\<forall>h\<in>{-1, 0, 1}. \<forall>v\<in>{-1, 0, 1}.
              species (trees f ! torus (forest_s f) d h v) \<noteq> arrival f d start
            \<and> (torus (forest_s f) d h v \<noteq> d \<longrightarrow>
                 species (trees (theForest_sdx st') ! torus (forest_s f) d h v) \<noteq> arrival f d start)))"
proof -
  note s = step_sdx [OF assms(1-6)]
  have f': "theForest_sdx st' = replaced f d start" using s(1) assms(7) by auto
  have a: "species (trees (theForest_sdx st') ! d) = arrival f d start"
    using s(3) by (simp add: f' replaced_fields)
  have b: "species (trees (theForest_sdx st') ! torus (forest_s f) d h v) \<noteq> arrival f d start"
    if "arrival f d start \<noteq> Null" "h \<in> {-1, 0, 1}" "v \<in> {-1, 0, 1}" "torus (forest_s f) d h v \<noteq> d"
    for h v
    using arrival_not_neighbor [OF that(1,2,3)] that(4) by (simp add: f' replaced_fields)
  show ?thesis
    using a b arrival_first [of _ f d start] arrival_none [of f d start]
      arrival_not_neighbor [of f d start]
    by blast
qed

text \<open>
  C3. In the socialdx program, when the scan of all \<open>N\<close> sites finds no eligible tree,
  the replacement returns normally: the departing site becomes vacant, the census
  entry of the departing species is decremented, and no other census entry changes.
  On a 3 by 3 grid no tree is ever eligible, whatever the species.
\<close>

theorem exhausted_scan_vacates:
  assumes "wellFormed names (theForest_sdx st)" and "validNames names" and "unit_draws g"
    and "f = theForest_sdx st"
    and "d = nat \<lfloor>g 0 * real (forest_N f)\<rfloor>" and "start = nat \<lfloor>g 1 * real (forest_N f)\<rfloor>"
  shows "((\<forall>k<forest_N f. \<not> eligible f d start k) \<longrightarrow>
           (\<exists>st'. replaceTree_sdx st g = Ok (st', \<lambda>k. g (k + 2))
              \<and> species (trees (theForest_sdx st') ! d) = Null
              \<and> census (theForest_sdx st') = decrement (census f) (key (species (trees f ! d)))
              \<and> (\<forall>sp\<in>set names. species (trees f ! d) = Str sp \<longrightarrow>
                    census (theForest_sdx st') sp = Some (Num (real (population (trees f) sp) - 1)))
              \<and> (\<forall>k. k \<noteq> key (species (trees f ! d)) \<longrightarrow>
                    census (theForest_sdx st') k = census f k)
              \<and> stepCount st' = stepCount st + 1))
    \<and> (forest_s f = 3 \<longrightarrow> (\<forall>k<forest_N f. \<not> eligible f d start k))"
proof -
  note s = step_sdx [OF assms(1-6)]
  have cnt: "counted names (trees f) (census f)" using assms(1,4) by (simp add: wellFormed_def)
  have three: "\<forall>k<forest_N f. \<not> eligible f d start k" if "forest_s f = 3"
    using three_by_three_none [of names f] assms(1,4) that by blast
  have vac: "\<exists>st'. replaceTree_sdx st g = Ok (st', \<lambda>k. g (k + 2))
      \<and> species (trees (theForest_sdx st') ! d) = Null
      \<and> census (theForest_sdx st') = decrement (census f) (key (species (trees f ! d)))
      \<and> (\<forall>sp\<in>set names. species (trees f ! d) = Str sp \<longrightarrow>
            census (theForest_sdx st') sp = Some (Num (real (population (trees f) sp) - 1)))
      \<and> (\<forall>k. k \<noteq> key (species (trees f ! d)) \<longrightarrow> census (theForest_sdx st') k = census f k)
      \<and> stepCount st' = stepCount st + 1"
    if none: "\<forall>k<forest_N f. \<not> eligible f d start k"
  proof -
    have a: "arrival f d start = Null" using none by (rule arrival_none)
    have c: "census (replaced f d start) = decrement (census f) (key (species (trees f ! d)))"
      using a by (simp add: replaced_def)
    have n: "species (trees (replaced f d start) ! d) = Null"
      using s(3) a by (simp add: replaced_fields)
    have dec: "decrement (census f) (key (species (trees f ! d))) sp =
        Some (Num (real (population (trees f) sp) - 1))"
      if "sp \<in> set names" "species (trees f ! d) = Str sp" for sp
      using that cnt by (simp add: decrement_def counted_def to_num_def)
    show ?thesis
      using s(1) c n dec by (simp add: decrement_other)
  qed
  show ?thesis using vac three by blast
qed

text \<open>
  C10. In the socialdx program every replacement keeps the census of each species of
  the set equal to the number of trees holding it. When the departing site is already
  vacant, the decrement falls on the property \<^verbatim>\<open>"null"\<close>, which is not a species of
  the set, and the count of no species goes down: only the count of an arriving
  species changes, by one upwards.
\<close>

theorem vacant_departure:
  assumes "wellFormed names (theForest_sdx st)" and "validNames names" and "unit_draws g"
    and "f = theForest_sdx st"
    and "d = nat \<lfloor>g 0 * real (forest_N f)\<rfloor>" and "start = nat \<lfloor>g 1 * real (forest_N f)\<rfloor>"
  shows "\<exists>st'. replaceTree_sdx st g = Ok (st', \<lambda>k. g (k + 2))
    \<and> wellFormed names (theForest_sdx st')
    \<and> (\<forall>sp\<in>set names. census (theForest_sdx st') sp =
          Some (Num (real (population (trees (theForest_sdx st')) sp))))
    \<and> (species (trees f ! d) = Null \<longrightarrow>
          key (species (trees f ! d)) \<notin> set names
        \<and> (\<forall>sp\<in>set names. census (theForest_sdx st') sp =
              (if arrival f d start = Str sp then Some (Num (real (population (trees f) sp) + 1))
               else census f sp)))"
proof -
  note s = step_sdx [OF assms(1-6)]
  have cnt: "counted names (trees f) (census f)" using assms(1,4) by (simp add: wellFormed_def)
  have c': "\<forall>sp\<in>set names. census (replaced f d start) sp =
      Some (Num (real (population (trees (replaced f d start)) sp)))"
    using s(5) by (simp add: wellFormed_def counted_def)
  have nn: "''null'' \<notin> set names" using assms(2) by (simp add: validNames_def)
  have v: "census (replaced f d start) sp =
      (if arrival f d start = Str sp then Some (Num (real (population (trees f) sp) + 1))
       else census f sp)"
    if "species (trees f ! d) = Null" "sp \<in> set names" for sp
  proof -
    have ne: "sp \<noteq> ''null''" using nn that(2) by auto
    have c: "census f sp = Some (Num (real (population (trees f) sp)))"
      using cnt that(2) by (simp add: counted_def)
    have "arrival f d start = Null \<or> (\<exists>y. arrival f d start = Str y)"
      using arrival_cases [OF _ assms(2), of f d start] assms(1,4) by auto
    then show ?thesis
      using that(1) ne c
      by (auto simp: replaced_def increment_def decrement_def to_num_def)
  qed
  have "replaceTree_sdx st g =
      Ok (st\<lparr>theForest_sdx := replaced f d start, stepCount := stepCount st + 1\<rparr>, \<lambda>k. g (k + 2))"
    by (rule s(1))
  moreover have "species (trees f ! d) = Null \<longrightarrow>
          key (species (trees f ! d)) \<notin> set names
        \<and> (\<forall>sp\<in>set names. census (replaced f d start) sp =
              (if arrival f d start = Str sp then Some (Num (real (population (trees f) sp) + 1))
               else census f sp))"
    using v nn by auto
  ultimately show ?thesis using s(5) c' by simp
qed

lemma validNames_treeColorMap4: "validNames treeColorMap4"
  by (simp add: validNames_def treeColorMap4_def)

lemma validNames_source:
  "validNames treeColorMap12" "validNames treeColorMap10" "validNames treeColorMap9"
  "validNames treeColorMap8"
  by (simp_all add: validNames_def treeColorMap12_def treeColorMap10_def treeColorMap9_def
        treeColorMap8_def)

lemma init_sdx_wellFormed:
  assumes "unit_draws g"
  shows "wellFormed treeColorMap10 (theForest_sdx (fst (init_sdx st g)))"
proof -
  obtain f g' where n: "newForest 25 treeColorMap10 (stepCount st) g = (f, g')"
    by (cases "newForest 25 treeColorMap10 (stepCount st) g")
  have "treeColorMap10 \<noteq> []" by (simp add: treeColorMap10_def)
  from newForest_wellFormed [OF this assms _ n] n show ?thesis by (simp add: init_sdx_def)
qed

lemma unit_draws_half: "unit_draws (\<lambda>n. 1 / 2)"
  by (simp add: unit_draws_def)

lemma unit_draws_stripes: "unit_draws stripes"
proof -
  have "real (n mod 4) \<le> 3" for n
  proof -
    have "n mod 4 \<le> 3" by simp
    then show ?thesis using of_nat_le_iff [of "n mod 4" 3, where ?'a = real] by simp
  qed
  then show ?thesis unfolding unit_draws_def stripes_def
    by (auto simp: field_simps intro: order_le_less_trans)
qed

lemma threeByThree_wf:
  "wellFormed treeColorMap4 (theForest_sdx threeByThree)"
  "forest_s (theForest_sdx threeByThree) = 3" "forest_N (theForest_sdx threeByThree) = 9"
proof -
  have n: "treeColorMap4 \<noteq> []" by (simp add: treeColorMap4_def)
  have e: "newForest 3 treeColorMap4 0 (\<lambda>n. 1 / 2) =
      (theForest_sdx threeByThree, snd (newForest 3 treeColorMap4 0 (\<lambda>n. 1 / 2)))"
    by (simp add: threeByThree_def)
  note w = newForest_wellFormed [OF n unit_draws_half _ e]
  show "wellFormed treeColorMap4 (theForest_sdx threeByThree)" using w by simp
  show s: "forest_s (theForest_sdx threeByThree) = 3" using w by simp
  show "forest_N (theForest_sdx threeByThree) = 9" using w s by (simp add: wellFormed_def)
qed

lemma fourByFour_wf:
  "wellFormed treeColorMap4 (theForest_sdx fourByFour)"
  "forest_s (theForest_sdx fourByFour) = 4" "forest_N (theForest_sdx fourByFour) = 16"
proof -
  have n: "treeColorMap4 \<noteq> []" by (simp add: treeColorMap4_def)
  have e: "newForest 4 treeColorMap4 0 stripes =
      (theForest_sdx fourByFour, snd (newForest 4 treeColorMap4 0 stripes))"
    by (simp add: fourByFour_def)
  note w = newForest_wellFormed [OF n unit_draws_stripes _ e]
  show "wellFormed treeColorMap4 (theForest_sdx fourByFour)" using w by simp
  show s: "forest_s (theForest_sdx fourByFour) = 4" using w by simp
  show "forest_N (theForest_sdx fourByFour) = 16" using w s by (simp add: wellFormed_def)
qed

lemma fourByFour_arrival: "arrival (theForest_sdx fourByFour) 2 6 = Str ''aspen''"
  by code_simp

lemma threeByThree_center:
  "species (trees (theForest_sdx threeByThree) ! 4) = Str ''beech''"
  "population (trees (theForest_sdx threeByThree)) ''beech'' = 9"
  by code_simp+

theorem neighbor_exclusion_witness:
  "wellFormed treeColorMap4 (theForest_sdx fourByFour) \<and> validNames treeColorMap4
   \<and> unit_draws stripes
   \<and> nat \<lfloor>stripes 0 * real (forest_N (theForest_sdx fourByFour))\<rfloor> = 2
   \<and> nat \<lfloor>stripes 1 * real (forest_N (theForest_sdx fourByFour))\<rfloor> = 6
   \<and> arrival (theForest_sdx fourByFour) 2 6 = Str ''aspen''
   \<and> (\<exists>st' g'. replaceTree_sdx fourByFour stripes = Ok (st', g')
         \<and> species (trees (theForest_sdx st') ! 2) = Str ''aspen''
         \<and> species (trees (theForest_sdx fourByFour) ! torus 4 2 1 1) \<noteq> Str ''aspen''
         \<and> species (trees (theForest_sdx fourByFour) ! torus 4 2 (- 1) 0) \<noteq> Str ''aspen'')"
proof -
  note w = fourByFour_wf
  have d: "2 = nat \<lfloor>stripes 0 * real (forest_N (theForest_sdx fourByFour))\<rfloor>"
    by (simp add: w(3) stripes_def)
  have s: "6 = nat \<lfloor>stripes 1 * real (forest_N (theForest_sdx fourByFour))\<rfloor>"
    by (simp add: w(3) stripes_def)
  obtain st' g' where r: "replaceTree_sdx fourByFour stripes = Ok (st', g')"
    using step_sdx(1) [OF w(1) validNames_treeColorMap4 unit_draws_stripes refl d s] by blast
  from neighbor_exclusion [OF w(1) validNames_treeColorMap4 unit_draws_stripes refl d s r]
    w validNames_treeColorMap4 unit_draws_stripes d s r fourByFour_arrival
  show ?thesis by simp
qed

lemma unit_draws_alternate: "unit_draws alternate"
proof -
  have "real (n mod 2) \<le> 1" for n
  proof -
    have "n mod 2 \<le> 1" by simp
    then show ?thesis using of_nat_le_iff [of "n mod 2" 1, where ?'a = real] by simp
  qed
  then show ?thesis unfolding unit_draws_def alternate_def
    by (auto simp: field_simps intro: order_le_less_trans)
qed

lemma validNames_coexist: "validNames treeNames_coexist"
  by (simp add: validNames_def treeNames_coexist_def)

lemma twoSpecies_wf:
  "wellFormed treeNames_coexist (theForest_sdx twoSpecies)"
  "forest_s (theForest_sdx twoSpecies) = 3" "forest_N (theForest_sdx twoSpecies) = 9"
proof -
  have e: "newForest 3 treeNames_coexist 0 alternate =
      (theForest_sdx twoSpecies, snd (newForest 3 treeNames_coexist 0 alternate))"
    by (simp add: twoSpecies_def)
  note w = newForest_wellFormed [OF treeNames_coexist_nonempty unit_draws_alternate _ e]
  show "wellFormed treeNames_coexist (theForest_sdx twoSpecies)" using w by simp
  show s: "forest_s (theForest_sdx twoSpecies) = 3" using w by simp
  show "forest_N (theForest_sdx twoSpecies) = 9" using w s by (simp add: wellFormed_def)
qed

lemma twoSpecies_trees:
  "species (trees (theForest_sdx twoSpecies) ! 2) = Str ''olive''"
  "population (trees (theForest_sdx twoSpecies)) ''olive'' = 5"
  "population (trees (theForest_sdx twoSpecies)) ''orange'' = 4"
  by code_simp+

theorem exhausted_scan_vacates_witness:
  "wellFormed treeNames_coexist (theForest_sdx twoSpecies) \<and> validNames treeNames_coexist
   \<and> unit_draws alternate \<and> forest_s (theForest_sdx twoSpecies) = 3
   \<and> nat \<lfloor>alternate 0 * real (forest_N (theForest_sdx twoSpecies))\<rfloor> = 2
   \<and> species (trees (theForest_sdx twoSpecies) ! 2) = Str ''olive''
   \<and> census (theForest_sdx twoSpecies) ''olive'' = Some (Num 5)
   \<and> census (theForest_sdx twoSpecies) ''orange'' = Some (Num 4)
   \<and> (\<exists>st'. replaceTree_sdx twoSpecies alternate = Ok (st', \<lambda>k. alternate (k + 2))
         \<and> species (trees (theForest_sdx st') ! 2) = Null
         \<and> census (theForest_sdx st') ''olive'' = Some (Num 4)
         \<and> census (theForest_sdx st') ''orange'' = Some (Num 4)
         \<and> stepCount st' = stepCount twoSpecies + 1)"
proof -
  note w = twoSpecies_wf
  have d: "2 = nat \<lfloor>alternate 0 * real (forest_N (theForest_sdx twoSpecies))\<rfloor>"
    by (simp add: w(3) alternate_def)
  have s: "6 = nat \<lfloor>alternate 1 * real (forest_N (theForest_sdx twoSpecies))\<rfloor>"
    by (simp add: w(3) alternate_def)
  have b: "''olive'' \<in> set treeNames_coexist" "''orange'' \<in> set treeNames_coexist"
    by (simp_all add: treeNames_coexist_def)
  have c: "census (theForest_sdx twoSpecies) ''olive'' = Some (Num 5)"
    "census (theForest_sdx twoSpecies) ''orange'' = Some (Num 4)"
    using w(1) b twoSpecies_trees(2,3) by (simp_all add: wellFormed_def counted_def)
  from exhausted_scan_vacates [OF w(1) validNames_coexist unit_draws_alternate refl d s]
    w validNames_coexist unit_draws_alternate twoSpecies_trees b c d
  show ?thesis by auto
qed

lemma vacated_wf:
  "wellFormed treeColorMap4 (theForest_sdx vacated)"
  "forest_N (theForest_sdx vacated) = 9"
  "species (trees (theForest_sdx vacated) ! 4) = Null"
proof -
  note w = threeByThree_wf
  have l: "length (trees (theForest_sdx threeByThree)) = 9" using w by (simp add: wellFormed_def)
  show "wellFormed treeColorMap4 (theForest_sdx vacated)"
    using wellFormed_replaced [OF w(1) validNames_treeColorMap4, of 4 4] w(3)
    by (simp add: vacated_def)
  show "forest_N (theForest_sdx vacated) = 9" using w(3) by (simp add: vacated_def replaced_fields)
  have "arrival (theForest_sdx threeByThree) 4 4 = Null"
    using three_by_three_none [OF w(1,2)] by (intro arrival_none) blast
  then show "species (trees (theForest_sdx vacated) ! 4) = Null"
    using l by (simp add: vacated_def replaced_fields)
qed

theorem vacant_departure_witness:
  "wellFormed treeColorMap4 (theForest_sdx vacated) \<and> validNames treeColorMap4
   \<and> unit_draws (\<lambda>n. 1 / 2)
   \<and> nat \<lfloor>1 / 2 * real (forest_N (theForest_sdx vacated))\<rfloor> = 4
   \<and> species (trees (theForest_sdx vacated) ! 4) = Null
   \<and> (\<exists>st'. replaceTree_sdx vacated (\<lambda>n. 1 / 2) = Ok (st', \<lambda>k. 1 / 2)
         \<and> wellFormed treeColorMap4 (theForest_sdx st')
         \<and> census (theForest_sdx st') ''beech'' = census (theForest_sdx vacated) ''beech''
         \<and> census (theForest_sdx st') ''beech'' =
             Some (Num (real (population (trees (theForest_sdx st')) ''beech''))))"
proof -
  note w = vacated_wf
  have d: "4 = nat \<lfloor>(\<lambda>n. 1 / 2 :: real) 0 * real (forest_N (theForest_sdx vacated))\<rfloor>"
    by (simp add: w(2))
  have s: "4 = nat \<lfloor>(\<lambda>n. 1 / 2 :: real) 1 * real (forest_N (theForest_sdx vacated))\<rfloor>"
    by (simp add: w(2))
  have b: "''beech'' \<in> set treeColorMap4" by (simp add: treeColorMap4_def)
  have t: "forest_s (theForest_sdx vacated) = 3"
    using threeByThree_wf(2) by (simp add: vacated_def replaced_fields)
  have a: "arrival (theForest_sdx vacated) 4 4 = Null"
    using three_by_three_none [OF w(1) t] by (intro arrival_none) blast
  from vacant_departure [OF w(1) validNames_treeColorMap4 unit_draws_half refl d s]
    w validNames_treeColorMap4 unit_draws_half b a
  show ?thesis by auto
qed

section \<open>The census balance\<close>

lemma treeLoop_rand:
  assumes "i \<le> n"
  shows "snd (snd (treeLoop newTree names s n i c r tv c0 g)) = (\<lambda>k. g (k + (n - i)))"
  using assms
proof (induction newTree names s n i c r tv c0 g rule: treeLoop.induct)
  case (1 newTree names s n i c r tv c0 g)
  show ?case
  proof (cases "i < n")
    case False
    then show ?thesis using "1.prems" by (simp add: treeLoop.simps)
  next
    case True
    have g1: "snd (randomSpecies names g) = (\<lambda>k. g (Suc k))"
      by (simp add: randomSpecies_def randomElement_shift)
    have "snd (snd (treeLoop newTree names s n i c r tv c0 g)) =
      snd (snd (treeLoop newTree names s n (i + 1) (if c + 1 \<ge> s then 0 else c + 1)
        (if c + 1 \<ge> s then r + 1 else r) (tv @ [newTree i c r (fst (randomSpecies names g))])
        (increment c0 (key (species (newTree i c r (fst (randomSpecies names g))))))
        (snd (randomSpecies names g))))"
      using True by (subst treeLoop.simps) (simp add: Let_def)
    also have "\<dots> = (\<lambda>k. snd (randomSpecies names g) (k + (n - (i + 1))))"
      by (rule "1.IH" [OF True refl refl refl refl]) (use True in simp)
    also have "\<dots> = (\<lambda>k. g (k + (n - i)))"
      using True by (simp add: g1 Suc_diff_Suc)
    finally show ?thesis .
  qed
qed

lemma createForest_rand:
  "snd (snd (createForest names clock s g)) = (\<lambda>k. g (k + s * s))"
  by (simp add: createForest_def treeLoop_rand square_def)

lemma balanced_counted:
  assumes "distinct names" "counted names ts c"
    "\<forall>t \<in> set ts. species t = Null \<or> (\<exists>sp \<in> set names. species t = Str sp)"
  shows "balanced names ts c (length ts)"
proof -
  have "censusTotal names c = Num (real (\<Sum>sp\<in>set names. population ts sp))"
    by (rule censusTotal_counted [OF assms(1,2)])
  moreover have "(\<Sum>sp\<in>set names. population ts sp) + vacancies ts = length ts"
    by (rule population_sum [OF assms(3)])
  then have "real (\<Sum>sp\<in>set names. population ts sp) + real (vacancies ts) = real (length ts)"
    by (metis of_nat_add)
  ultimately show ?thesis
    unfolding balanced_def by simp
qed

lemma balanced_labelled:
  assumes "distinct names" "counted names ts c" "labelled names ts"
  shows "balanced names ts c (length ts)" "vacancies ts = 0"
proof -
  show "balanced names ts c (length ts)"
    by (rule balanced_counted [OF assms(1,2)]) (use assms(3) in \<open>auto simp: labelled_def\<close>)
  show "vacancies ts = 0" using assms(3) by (rule labelled_vacancies)
qed

lemma replaceTree_inv:
  assumes "replaceTree st g = Ok (st', g')" "unit_draws g"
    "labelled treeNames_immigration (theForest st)"
    "counted treeNames_immigration (theForest st) (theCensus st)"
  shows "unit_draws g' \<and> length (theForest st') = length (theForest st)
    \<and> labelled treeNames_immigration (theForest st')
    \<and> counted treeNames_immigration (theForest st') (theCensus st')"
proof -
  have "theForest st \<noteq> []" using replaceTree_OkD [OF assms(1)] by auto
  from replaceTree_step [OF assms(2) this assms(3,4)] assms(1) show ?thesis by auto
qed

lemma replaceTree_drift_OkD:
  assumes "replaceTree_drift st g = Ok (st', g')"
  shows "\<exists>a \<in> set (theForest st).
      nat \<lfloor>g 0 * real (length (theForest st))\<rfloor> < length (theForest st)
    \<and> theForest st' = (theForest st)[nat \<lfloor>g 0 * real (length (theForest st))\<rfloor> :=
          (theForest st ! nat \<lfloor>g 0 * real (length (theForest st))\<rfloor>)\<lparr>species := species a\<rparr>]
    \<and> theCensus st' = increment (decrement (theCensus st)
          (key (species (theForest st ! nat \<lfloor>g 0 * real (length (theForest st))\<rfloor>))))
          (key (species a))
    \<and> stepCount st' = stepCount st + 1 \<and> g' = (\<lambda>k. g (k + 2))"
  using assms
  by (auto simp: replaceTree_drift_def Let_def random_shift randomElement_shift
        split: option.splits dest!: element_SomeD)

lemma replaceTree_drift_inv:
  assumes "replaceTree_drift st g = Ok (st', g')"
    "labelled names (theForest st)" "counted names (theForest st) (theCensus st)"
  shows "length (theForest st') = length (theForest st) \<and> labelled names (theForest st')
    \<and> counted names (theForest st') (theCensus st') \<and> (unit_draws g \<longrightarrow> unit_draws g')"
proof -
  let ?d = "nat \<lfloor>g 0 * real (length (theForest st))\<rfloor>"
  obtain a where a: "a \<in> set (theForest st)" and d: "?d < length (theForest st)"
    and f: "theForest st' = (theForest st)[?d := (theForest st ! ?d)\<lparr>species := species a\<rparr>]"
    and c: "theCensus st' = increment (decrement (theCensus st)
          (key (species (theForest st ! ?d)))) (key (species a))"
    and g': "g' = (\<lambda>k. g (k + 2))"
    using replaceTree_drift_OkD [OF assms(1)] by blast
  obtain y where y: "y \<in> set names" "species a = Str y"
    using assms(2) a by (auto simp: labelled_def)
  obtain x where x: "x \<in> set names" "species (theForest st ! ?d) = Str x"
    using labelled_nth [OF assms(2) d] by blast
  let ?t' = "(theForest st ! ?d)\<lparr>species := species a\<rparr>"
  have "counted names ((theForest st)[?d := ?t'])
      (increment (decrement (theCensus st) (key (species (theForest st ! ?d)))) (key (species ?t')))"
    by (rule counted_replace [OF assms(3) d]) (use x y in simp_all)
  moreover have "labelled names ((theForest st)[?d := ?t'])"
    by (rule labelled_update [OF assms(2) _ y(1)]) (simp add: y)
  ultimately show ?thesis using f c g' by (simp add: unit_draws_def)
qed

lemma replaceTree_drift_step:
  assumes "unit_draws g" "theForest st \<noteq> []"
  shows "\<exists>st'. replaceTree_drift st g = Ok (st', \<lambda>k. g (k + 2))"
  using draw_in_range(1,2) [OF assms, of 0] draw_in_range(1,2) [OF assms, of 1]
  by (simp add: replaceTree_drift_def Let_def random_shift randomElement_shift element_def)

lemma replaceTree_sdx_empty:
  "trees (theForest_sdx st) = [] \<Longrightarrow> replaceTree_sdx st g = TypeError"
  by (auto simp: replaceTree_sdx_def Let_def element_def)

lemma wellFormedD:
  assumes "wellFormed names f"
  shows "counted names (trees f) (census f)"
    "\<forall>t \<in> set (trees f). species t = Null \<or> (\<exists>sp \<in> set names. species t = Str sp)"
    "length (trees f) = forest_s f * forest_s f" "0 < forest_s f"
  using assms by (simp_all add: wellFormed_def)

lemma sdx_loop_inv:
  assumes "unit_draws g" "validNames names" "newForest s names clock g = (theForest_sdx sx, g0)"
    "forLoop 0 n (\<lambda>(st, g). replaceTree_sdx st g) (sx, g0) = Ok (sx', g1)"
  shows "length (trees (theForest_sdx sx')) = s * s
    \<and> counted names (trees (theForest_sdx sx')) (census (theForest_sdx sx'))
    \<and> (\<forall>t \<in> set (trees (theForest_sdx sx')).
          species t = Null \<or> (\<exists>sp \<in> set names. species t = Str sp))
    \<and> (0 < s \<longrightarrow> wellFormed names (theForest_sdx sx'))
    \<and> stepCount sx' = stepCount sx + n"
proof -
  have ne: "names \<noteq> []" using assms(2) by (simp add: validNames_def)
  let ?A = "\<lambda>f. length (trees f) = s * s \<and> counted names (trees f) (census f)
      \<and> (\<forall>t \<in> set (trees f). species t = Null \<or> (\<exists>sp \<in> set names. species t = Str sp))
      \<and> (0 < s \<longrightarrow> wellFormed names f)"
  let ?I = "\<lambda>k (p :: socialdx \<times> rand). unit_draws (snd p) \<and> ?A (theForest_sdx (fst p))
      \<and> stepCount (fst p) = stepCount sx + k"
  have "?I n (sx', g1)"
  proof (rule forLoop_rule [where I = ?I, OF assms(4)])
    have "0 < s \<longrightarrow> wellFormed names (theForest_sdx sx)"
      using newForest_wellFormed [OF ne assms(1) _ assms(3)] by simp
    then show "?I 0 (sx, g0)"
      using newForest_inv [OF ne assms(1,3)] by (auto simp: labelled_def)
  next
    fix k p p'
    assume i: "?I k p" and b: "(case p of (st, g) \<Rightarrow> replaceTree_sdx st g) = Ok p'"
    obtain a h where p: "p = (a, h)" by (cases p)
    have r: "replaceTree_sdx a h = Ok p'" using b p by simp
    have s: "0 < s"
    proof (rule ccontr)
      assume "\<not> 0 < s"
      then have "trees (theForest_sdx a) = []" using i p by simp
      then show False using r by (simp add: replaceTree_sdx_empty)
    qed
    then have w: "wellFormed names (theForest_sdx a)" using i p by simp
    have u: "unit_draws h" using i p by simp
    note st = step_sdx [OF w assms(2) u refl refl refl]
    have p': "p' = (a\<lparr>theForest_sdx := replaced (theForest_sdx a)
          (nat \<lfloor>h 0 * real (forest_N (theForest_sdx a))\<rfloor>)
          (nat \<lfloor>h 1 * real (forest_N (theForest_sdx a))\<rfloor>),
        stepCount := stepCount a + 1\<rparr>, \<lambda>k. h (k + 2))"
      using st(1) r by simp
    let ?f' = "replaced (theForest_sdx a)
          (nat \<lfloor>h 0 * real (forest_N (theForest_sdx a))\<rfloor>)
          (nat \<lfloor>h 1 * real (forest_N (theForest_sdx a))\<rfloor>)"
    have l: "length (trees ?f') = s * s" using i p by (simp add: replaced_fields)
    have "?A ?f'"
      using wellFormedD(1,2) [OF st(5)] st(5) l by blast
    moreover have "unit_draws (\<lambda>k. h (k + 2))" using u by (simp add: unit_draws_def)
    moreover have "theForest_sdx (fst p') = ?f'" "snd p' = (\<lambda>k. h (k + 2))"
      "stepCount (fst p') = stepCount a + 1"
      by (simp_all add: p')
    ultimately show "?I (k + 1) p'" using i p by simp
  qed simp
  then show ?thesis by simp
qed

lemma newForest_rand: "snd (newForest s names clock g) = (\<lambda>k. g (k + s * s))"
proof -
  have "snd (newForest s names clock g) =
    snd (snd (treeLoop (\<lambda>i c r sp. \<lparr>col = c, row = r, species = sp, birthdate = clock, idx = i,
                 neighborTrees = [], neighborSpecies = {}\<rparr>)
             names s (square s) 0 0 0 [] (zeroCounts names) g))"
    by (simp add: newForest_def split: prod.splits)
  then show ?thesis by (simp add: treeLoop_rand square_def)
qed

lemma distinct_treeNames:
  "distinct treeNames_immigration" "distinct treeNames_coexist"
  by (simp_all add: treeNames_immigration_def treeNames_coexist_def)

lemma imm_loop_inv:
  assumes "unit_draws g"
    "createForest treeNames_immigration clock s g = (theForest im, theCensus im, g0)"
    "forLoop 0 n (\<lambda>(st, g). replaceTree st g) (im, g0) = Ok (im', g1)"
  shows "length (theForest im') = s * s \<and> labelled treeNames_immigration (theForest im')
    \<and> counted treeNames_immigration (theForest im') (theCensus im')"
proof -
  let ?I = "\<lambda>k (p :: immigration \<times> rand). unit_draws (snd p) \<and> length (theForest (fst p)) = s * s
      \<and> labelled treeNames_immigration (theForest (fst p))
      \<and> counted treeNames_immigration (theForest (fst p)) (theCensus (fst p))"
  have "?I n (im', g1)"
  proof (rule forLoop_rule [where I = ?I, OF assms(3)])
    show "?I 0 (im, g0)"
      using createForest_inv [OF treeNames_immigration_nonempty assms(1,2)] by simp
  next
    fix k p p'
    assume i: "?I k p" and b: "(case p of (st, g) \<Rightarrow> replaceTree st g) = Ok p'"
    obtain a h where p: "p = (a, h)" by (cases p)
    obtain a' h' where p': "p' = (a', h')" by (cases p')
    show "?I (k + 1) p'"
      using replaceTree_inv [of a h a' h'] b i p p' by simp
  qed simp
  then show ?thesis by simp
qed

lemma coexist_loop_inv:
  assumes "unit_draws g"
    "createForest treeNames_coexist clock s g = (theForest co, theCensus co, g0)"
    "forLoopOpt 0 n (\<lambda>(st, g). replaceTree_coexist st g) (co, g0) = Some (Ok (co', g1))"
  shows "length (theForest co') = s * s \<and> labelled treeNames_coexist (theForest co')
    \<and> counted treeNames_coexist (theForest co') (theCensus co')"
proof -
  let ?I = "\<lambda>k (p :: coexist \<times> rand). length (theForest (fst p)) = s * s
      \<and> labelled treeNames_coexist (theForest (fst p))
      \<and> counted treeNames_coexist (theForest (fst p)) (theCensus (fst p))"
  have "?I n (co', g1)"
  proof (rule forLoopOpt_rule [where I = ?I, OF assms(3)])
    show "?I 0 (co, g0)"
      using createForest_inv [OF treeNames_coexist_nonempty assms(1,2)] by simp
  next
    fix k p p'
    assume i: "?I k p" and b: "(case p of (st, g) \<Rightarrow> replaceTree_coexist st g) = Some (Ok p')"
    obtain a h where p: "p = (a, h)" by (cases p)
    obtain a' h' where p': "p' = (a', h')" by (cases p')
    show "?I (k + 1) p'"
      using replaceTree_coexist_inv [of a h a' h' treeNames_coexist] b i p p' by simp
  qed simp
  then show ?thesis by simp
qed

lemma drift_loop_inv:
  assumes "unit_draws g" "names \<noteq> []"
    "createForest names clock s g = (theForest dr, theCensus dr, g0)"
    "forLoop 0 n (\<lambda>(st, g). replaceTree_drift st g) (dr, g0) = Ok (dr', g1)"
  shows "length (theForest dr') = s * s \<and> labelled names (theForest dr')
    \<and> counted names (theForest dr') (theCensus dr')"
proof -
  let ?I = "\<lambda>k (p :: 'a drift_scheme \<times> rand). length (theForest (fst p)) = s * s
      \<and> labelled names (theForest (fst p))
      \<and> counted names (theForest (fst p)) (theCensus (fst p))"
  have "?I n (dr', g1)"
  proof (rule forLoop_rule [where I = ?I, OF assms(4)])
    show "?I 0 (dr, g0)"
      using createForest_inv [OF assms(2,1,3)] by simp
  next
    fix k p p'
    assume i: "?I k p" and b: "(case p of (st, g) \<Rightarrow> replaceTree_drift st g) = Ok p'"
    obtain a h where p: "p = (a, h)" by (cases p)
    obtain a' h' where p': "p' = (a', h')" by (cases p')
    show "?I (k + 1) p'"
      using replaceTree_drift_inv [of a h a' h' names] b i p p' by simp
  qed simp
  then show ?thesis by simp
qed

text \<open>
  C1. Start from a freshly constructed grid of \<open>N = s\<^sup>2\<close> sites and make any number \<open>n\<close>
  of replacements. Then the census counts of all species plus the number of vacant
  sites equal \<open>N\<close>, in the immigration program, in the coexist program, in the socialdx
  program and under the plain-drift rule; in all but socialdx no site is ever vacant.
  Since \<open>n\<close> is arbitrary, each replacement preserves the sum.
\<close>

theorem census_balance:
  "(unit_draws g
      \<and> createForest treeNames_immigration clock s g = (theForest im, theCensus im, g0)
      \<and> forLoop 0 n (\<lambda>(st, g). replaceTree st g) (im, g0) = Ok (im', g1)
    \<longrightarrow> balanced treeNames_immigration (theForest im') (theCensus im') (s * s)
      \<and> vacancies (theForest im') = 0)
   \<and> (unit_draws g
      \<and> createForest treeNames_coexist clock s g = (theForest co, theCensus co, g0)
      \<and> forLoopOpt 0 n (\<lambda>(st, g). replaceTree_coexist st g) (co, g0) = Some (Ok (co', g1))
    \<longrightarrow> balanced treeNames_coexist (theForest co') (theCensus co') (s * s)
      \<and> vacancies (theForest co') = 0)
   \<and> (unit_draws g \<and> validNames names
      \<and> newForest s names clock g = (theForest_sdx sx, g0)
      \<and> forLoop 0 n (\<lambda>(st, g). replaceTree_sdx st g) (sx, g0) = Ok (sx', g1)
    \<longrightarrow> balanced names (trees (theForest_sdx sx')) (census (theForest_sdx sx')) (s * s))
   \<and> (unit_draws g \<and> distinct names \<and> names \<noteq> []
      \<and> createForest names clock s g = (theForest dr, theCensus dr, g0)
      \<and> forLoop 0 n (\<lambda>(st, g). replaceTree_drift st g) (dr, g0) = Ok (dr', g1)
    \<longrightarrow> balanced names (theForest dr') (theCensus dr') (s * s)
      \<and> vacancies (theForest dr') = 0)"
proof (intro conjI impI)
  assume a: "unit_draws g
      \<and> createForest treeNames_immigration clock s g = (theForest im, theCensus im, g0)
      \<and> forLoop 0 n (\<lambda>(st, g). replaceTree st g) (im, g0) = Ok (im', g1)"
  then have i: "length (theForest im') = s * s" "labelled treeNames_immigration (theForest im')"
    "counted treeNames_immigration (theForest im') (theCensus im')"
    using imm_loop_inv [of g clock s im g0 n im' g1] by simp_all
  show "balanced treeNames_immigration (theForest im') (theCensus im') (s * s)"
    using balanced_labelled(1) [OF distinct_treeNames(1) i(3,2)] i(1) by simp
  show "vacancies (theForest im') = 0" using i(2) by (rule labelled_vacancies)
next
  assume a: "unit_draws g
      \<and> createForest treeNames_coexist clock s g = (theForest co, theCensus co, g0)
      \<and> forLoopOpt 0 n (\<lambda>(st, g). replaceTree_coexist st g) (co, g0) = Some (Ok (co', g1))"
  then have i: "length (theForest co') = s * s" "labelled treeNames_coexist (theForest co')"
    "counted treeNames_coexist (theForest co') (theCensus co')"
    using coexist_loop_inv [of g clock s co g0 n co' g1] by simp_all
  show "balanced treeNames_coexist (theForest co') (theCensus co') (s * s)"
    using balanced_labelled(1) [OF distinct_treeNames(2) i(3,2)] i(1) by simp
  show "vacancies (theForest co') = 0" using i(2) by (rule labelled_vacancies)
next
  assume a: "unit_draws g \<and> validNames names
      \<and> newForest s names clock g = (theForest_sdx sx, g0)
      \<and> forLoop 0 n (\<lambda>(st, g). replaceTree_sdx st g) (sx, g0) = Ok (sx', g1)"
  then have i: "length (trees (theForest_sdx sx')) = s * s"
    "counted names (trees (theForest_sdx sx')) (census (theForest_sdx sx'))"
    "\<forall>t \<in> set (trees (theForest_sdx sx')).
          species t = Null \<or> (\<exists>sp \<in> set names. species t = Str sp)"
    using sdx_loop_inv [of g names s clock sx g0 n sx' g1] by simp_all
  have d: "distinct names" using a by (simp add: validNames_def)
  show "balanced names (trees (theForest_sdx sx')) (census (theForest_sdx sx')) (s * s)"
    using balanced_counted [OF d i(2,3)] i(1) by simp
next
  assume a: "unit_draws g \<and> distinct names \<and> names \<noteq> []
      \<and> createForest names clock s g = (theForest dr, theCensus dr, g0)
      \<and> forLoop 0 n (\<lambda>(st, g). replaceTree_drift st g) (dr, g0) = Ok (dr', g1)"
  then have i: "length (theForest dr') = s * s" "labelled names (theForest dr')"
    "counted names (theForest dr') (theCensus dr')"
    using drift_loop_inv [of g names clock s dr g0 n dr' g1] by simp_all
  have d: "distinct names" using a by simp
  show "balanced names (theForest dr') (theCensus dr') (s * s)"
    using balanced_labelled(1) [OF d i(3,2)] i(1) by simp
  show "vacancies (theForest dr') = 0" using i(2) by (rule labelled_vacancies)
qed

lemma imm_run:
  assumes "unit_draws g" "theForest st \<noteq> []" "labelled treeNames_immigration (theForest st)"
    "counted treeNames_immigration (theForest st) (theCensus st)"
  shows "\<exists>st' g'. forLoop i n (\<lambda>(st, g). replaceTree st g) (st, g) = Ok (st', g')"
proof -
  let ?I = "\<lambda>(k :: nat) (p :: immigration \<times> rand). unit_draws (snd p) \<and> theForest (fst p) \<noteq> []
      \<and> labelled treeNames_immigration (theForest (fst p))
      \<and> counted treeNames_immigration (theForest (fst p)) (theCensus (fst p))"
  have "\<exists>p'. forLoop i n (\<lambda>(st, g). replaceTree st g) (st, g) = Ok p'"
  proof (rule forLoop_total [where I = ?I])
    show "?I i (st, g)" using assms by simp
  next
    fix k p
    assume i: "?I k p"
    obtain a h where p: "p = (a, h)" by (cases p)
    obtain a' h' where "replaceTree a h = Ok (a', h')" "unit_draws h'"
      "length (theForest a') = length (theForest a)" "labelled treeNames_immigration (theForest a')"
      "counted treeNames_immigration (theForest a') (theCensus a')"
      using replaceTree_step [of h a] i p by auto
    then show "\<exists>s'. (case p of (st, g) \<Rightarrow> replaceTree st g) = Ok s' \<and> ?I (k + 1) s'"
      using i p by (intro exI [of _ "(a', h')"]) auto
  qed
  then show ?thesis by auto
qed

lemma drift_run:
  assumes "unit_draws g" "theForest st \<noteq> []"
  shows "\<exists>st' g'. forLoop i n (\<lambda>(st, g). replaceTree_drift st g) (st, g) = Ok (st', g')"
proof -
  let ?I = "\<lambda>(k :: nat) (p :: 'a drift_scheme \<times> rand). unit_draws (snd p) \<and> theForest (fst p) \<noteq> []"
  have "\<exists>p'. forLoop i n (\<lambda>(st, g). replaceTree_drift st g) (st, g) = Ok p'"
  proof (rule forLoop_total [where I = ?I])
    show "?I i (st, g)" using assms by simp
  next
    fix k p
    assume i: "?I k p"
    obtain a h where p: "p = (a, h)" by (cases p)
    obtain a' where r: "replaceTree_drift a h = Ok (a', \<lambda>k. h (k + 2))"
      using replaceTree_drift_step [of h a] i p by auto
    have "length (theForest a') = length (theForest a)"
      using replaceTree_drift_OkD [OF r] by auto
    then have "theForest a' \<noteq> []" using i p by auto
    moreover have "unit_draws (\<lambda>k. h (k + 2))" using i p by (simp add: unit_draws_def)
    ultimately show "\<exists>s'. (case p of (st, g) \<Rightarrow> replaceTree_drift st g) = Ok s' \<and> ?I (k + 1) s'"
      using r p by (intro exI [of _ "(a', \<lambda>k. h (k + 2))"]) auto
  qed
  then show ?thesis by auto
qed

lemma sdx_run:
  assumes "unit_draws g" "validNames names" "wellFormed names (theForest_sdx st)"
  shows "\<exists>st' g'. forLoop i n (\<lambda>(st, g). replaceTree_sdx st g) (st, g) = Ok (st', g')"
proof -
  let ?I = "\<lambda>(k :: nat) (p :: socialdx \<times> rand). unit_draws (snd p)
      \<and> wellFormed names (theForest_sdx (fst p))"
  have "\<exists>p'. forLoop i n (\<lambda>(st, g). replaceTree_sdx st g) (st, g) = Ok p'"
  proof (rule forLoop_total [where I = ?I])
    show "?I i (st, g)" using assms by simp
  next
    fix k p
    assume i: "?I k p"
    obtain a h where p: "p = (a, h)" by (cases p)
    have w: "wellFormed names (theForest_sdx a)" and u: "unit_draws h" using i p by simp_all
    note s = step_sdx [OF w assms(2) u refl refl refl]
    have "unit_draws (\<lambda>k. h (k + 2))" using u by (simp add: unit_draws_def)
    then show "\<exists>s'. (case p of (st, g) \<Rightarrow> replaceTree_sdx st g) = Ok s' \<and> ?I (k + 1) s'"
      using s(1,5) p by simp
  qed
  then show ?thesis by auto
qed

lemma sapling_facts:
  "createForest treeNames_immigration 0 2 (\<lambda>n. 1 / 2) = (theForest sapling, theCensus sapling, \<lambda>n. 1 / 2)"
  "theForest sapling \<noteq> []" "labelled treeNames_immigration (theForest sapling)"
  "counted treeNames_immigration (theForest sapling) (theCensus sapling)"
  "stepCount sapling = 0"
proof -
  let ?c = "createForest treeNames_immigration 0 2 (\<lambda>n. 1 / 2)"
  have r: "snd (snd ?c) = (\<lambda>n. 1 / 2)" by (simp add: createForest_rand)
  have e: "?c = (fst ?c, fst (snd ?c), snd (snd ?c))" by simp
  show c: "?c = (theForest sapling, theCensus sapling, \<lambda>n. 1 / 2)"
    by (subst e, subst r) (simp add: sapling_def)
  note i = createForest_inv [OF treeNames_immigration_nonempty unit_draws_half c]
  show "theForest sapling \<noteq> []" using i by auto
  show "labelled treeNames_immigration (theForest sapling)" using i by simp
  show "counted treeNames_immigration (theForest sapling) (theCensus sapling)" using i by simp
  show "stepCount sapling = 0" by (simp add: sapling_def pageLoad_def)
qed

lemma sapling_coexist_facts:
  "createForest treeNames_coexist 0 1 (\<lambda>n. 1 / 2) =
     (theForest sapling_coexist, theCensus sapling_coexist, \<lambda>n. 1 / 2)"
  "theForest sapling_coexist \<noteq> []" "accepted sapling_coexist (\<lambda>n. 1 / 2) 0"
proof -
  let ?c = "createForest treeNames_coexist 0 1 (\<lambda>n. 1 / 2)"
  have r: "snd (snd ?c) = (\<lambda>n. 1 / 2)" by (simp add: createForest_rand)
  have e: "?c = (fst ?c, fst (snd ?c), snd (snd ?c))" by simp
  show c: "?c = (theForest sapling_coexist, theCensus sapling_coexist, \<lambda>n. 1 / 2)"
    by (subst e, subst r) (simp add: sapling_coexist_def)
  note i = createForest_inv [OF treeNames_coexist_nonempty unit_draws_half c]
  show "theForest sapling_coexist \<noteq> []" using i by auto
  show "accepted sapling_coexist (\<lambda>n. 1 / 2) 0" by code_simp
qed

lemma threeByThree_new:
  "newForest 3 treeColorMap4 0 (\<lambda>n. 1 / 2) = (theForest_sdx threeByThree, \<lambda>n. 1 / 2)"
proof -
  let ?c = "newForest 3 treeColorMap4 0 (\<lambda>n. 1 / 2)"
  have r: "snd ?c = (\<lambda>n. 1 / 2)" by (simp add: newForest_rand)
  have e: "?c = (fst ?c, snd ?c)" by simp
  show ?thesis by (subst e, subst r) (simp add: threeByThree_def)
qed

theorem census_balance_witness:
  "unit_draws (\<lambda>n. 1 / 2) \<and> validNames treeColorMap4
   \<and> (\<exists>im' g1. forLoop 0 3 (\<lambda>(st, g). replaceTree st g) (sapling, \<lambda>n. 1 / 2) = Ok (im', g1)
         \<and> balanced treeNames_immigration (theForest im') (theCensus im') (2 * 2)
         \<and> vacancies (theForest im') = 0)
   \<and> (\<exists>co' g1. forLoopOpt 0 1 (\<lambda>(st, g). replaceTree_coexist st g) (sapling_coexist, \<lambda>n. 1 / 2) =
           Some (Ok (co', g1))
         \<and> balanced treeNames_coexist (theForest co') (theCensus co') (1 * 1))
   \<and> (\<exists>sx' g1. forLoop 0 3 (\<lambda>(st, g). replaceTree_sdx st g) (threeByThree, \<lambda>n. 1 / 2) = Ok (sx', g1)
         \<and> balanced treeColorMap4 (trees (theForest_sdx sx')) (census (theForest_sdx sx')) (3 * 3))
   \<and> (\<exists>dr' g1. forLoop 0 3 (\<lambda>(st, g). replaceTree_drift st g) (sapling, \<lambda>n. 1 / 2) = Ok (dr', g1)
         \<and> balanced treeNames_immigration (theForest dr') (theCensus dr') (2 * 2))"
proof -
  note u = unit_draws_half
  note v = validNames_treeColorMap4
  obtain im' g1 where a: "forLoop 0 3 (\<lambda>(st, g). replaceTree st g) (sapling, \<lambda>n. 1 / 2) = Ok (im', g1)"
    using imm_run [OF u sapling_facts(2,3,4)] by blast
  obtain co' where b0: "replaceTree_coexist sapling_coexist (\<lambda>n. 1 / 2) = Some (Ok (co', \<lambda>k. 1 / 2))"
    using replaceTree_coexist_accept [OF u sapling_coexist_facts(2,3)] by simp
  have b: "forLoopOpt 0 1 (\<lambda>(st, g). replaceTree_coexist st g) (sapling_coexist, \<lambda>n. 1 / 2) =
      Some (Ok (co', \<lambda>k. 1 / 2))"
    using b0 by (simp add: forLoopOpt.simps)
  obtain sx' g3 where c: "forLoop 0 3 (\<lambda>(st, g). replaceTree_sdx st g) (threeByThree, \<lambda>n. 1 / 2) = Ok (sx', g3)"
    using sdx_run [OF u v threeByThree_wf(1)] by blast
  obtain dr' g4 where d: "forLoop 0 3 (\<lambda>(st, g). replaceTree_drift st g) (sapling, \<lambda>n. 1 / 2) = Ok (dr', g4)"
    using drift_run [OF u sapling_facts(2)] by blast
  have n: "distinct treeNames_immigration" "treeNames_immigration \<noteq> []"
    by (simp_all add: treeNames_immigration_def)
  have A: "balanced treeNames_immigration (theForest im') (theCensus im') (2 * 2)
      \<and> vacancies (theForest im') = 0"
    by (rule census_balance [THEN conjunct1, rule_format])
       (intro conjI, rule u, rule sapling_facts(1), rule a)
  have B: "balanced treeNames_coexist (theForest co') (theCensus co') (1 * 1)
      \<and> vacancies (theForest co') = 0"
    by (rule census_balance [THEN conjunct2, THEN conjunct1, rule_format])
       (intro conjI, rule u, rule sapling_coexist_facts(1), rule b)
  have C: "balanced treeColorMap4 (trees (theForest_sdx sx')) (census (theForest_sdx sx')) (3 * 3)"
    by (rule census_balance [THEN conjunct2, THEN conjunct2, THEN conjunct1, rule_format])
       (intro conjI, rule u, rule v, rule threeByThree_new, rule c)
  have D: "balanced treeNames_immigration (theForest dr') (theCensus dr') (2 * 2)
      \<and> vacancies (theForest dr') = 0"
    by (rule census_balance [THEN conjunct2, THEN conjunct2, THEN conjunct2, rule_format])
       (intro conjI, rule u, rule n(1), rule n(2), rule sapling_facts(1), rule d)
  show ?thesis using u v a b c d A B C D by blast
qed

section \<open>The clock\<close>

lemma replaceTree_sdx_clock:
  "replaceTree_sdx sx g = Ok (sx', h) \<Longrightarrow> stepCount sx' = stepCount sx + 1"
  by (auto simp: replaceTree_sdx_def Let_def split: option.splits result.splits)

lemma replaceTree_clock:
  "replaceTree im g = Ok (im', h) \<Longrightarrow> stepCount im' = stepCount im + 1"
  using replaceTree_OkD [of im g im' h] by auto

lemma replaceTree_drift_clock:
  "replaceTree_drift dr g = Ok (dr', h) \<Longrightarrow> stepCount dr' = stepCount dr + 1"
  using replaceTree_drift_OkD [of dr g dr' h] by auto

lemma replaceTree_coexist_clock:
  "replaceTree_coexist co g = Some (Ok (co', h)) \<Longrightarrow> stepCount co' = stepCount co + 1"
  using replaceTree_coexist_OkD [of co g co' h] by auto

lemma imm_loop_clock:
  assumes "forLoop 0 B (\<lambda>(st, g). replaceTree st g) (im, g) = Ok (im', h)"
  shows "stepCount im' = stepCount im + B"
proof -
  let ?I = "\<lambda>k (p :: immigration \<times> rand). stepCount (fst p) = stepCount im + k"
  have "?I B (im', h)"
  proof (rule forLoop_rule [where I = ?I, OF assms])
    fix k p p'
    assume i: "?I k p" and b: "(case p of (st, g) \<Rightarrow> replaceTree st g) = Ok p'"
    obtain a r where p: "p = (a, r)" by (cases p)
    obtain a' r' where p': "p' = (a', r')" by (cases p')
    show "?I (k + 1) p'" using replaceTree_clock [of a r a' r'] b i p p' by simp
  qed simp_all
  then show ?thesis by simp
qed

lemma drift_loop_clock:
  assumes "forLoop 0 B (\<lambda>(st, g). replaceTree_drift st g) (dr, g) = Ok (dr', h)"
  shows "stepCount dr' = stepCount dr + B"
proof -
  let ?I = "\<lambda>k (p :: 'a drift_scheme \<times> rand). stepCount (fst p) = stepCount dr + k"
  have "?I B (dr', h)"
  proof (rule forLoop_rule [where I = ?I, OF assms])
    fix k p p'
    assume i: "?I k p" and b: "(case p of (st, g) \<Rightarrow> replaceTree_drift st g) = Ok p'"
    obtain a r where p: "p = (a, r)" by (cases p)
    obtain a' r' where p': "p' = (a', r')" by (cases p')
    show "?I (k + 1) p'" using replaceTree_drift_clock [of a r a' r'] b i p p' by simp
  qed simp_all
  then show ?thesis by simp
qed

lemma runBatch_clock:
  assumes "runBatch im g = Ok (im', h)"
  shows "stepCount im' = stepCount im + batchSize"
proof -
  obtain s1 where l: "forLoop 0 batchSize (\<lambda>(st, g). replaceTree st g) (im, g) = Ok (s1, h)"
    and e: "im' = (if finished s1 then doStartStop s1 else s1)"
    using assms by (auto simp: runBatch_def split: result.splits)
  have "stepCount im' = stepCount s1"
    using e by (simp add: doStartStop_def split: run_state.splits)
  then show ?thesis using imm_loop_clock [OF l] by simp
qed

lemma coexist_rejections_clock:
  assumes "unit_draws g" "theForest co \<noteq> []" "accepted co g j" "\<forall>i<j. \<not> accepted co g i"
  shows "\<exists>co'. replaceTree_coexist co g = Some (Ok (co', \<lambda>k. g (k + (2 * j + 3))))
    \<and> stepCount co' = stepCount co + 1"
  using replaceTree_coexist_accept [OF assms] by simp

text \<open>
  C7. Every replacement that returns increments \<open>stepCount\<close> by exactly one, in all
  variants. In the coexist program this holds however many candidates the rejection
  loop has rejected: when attempt \<open>j\<close> is the first accepted one, the replacement has
  consumed \<open>2j + 3\<close> draws and the clock has advanced by one. So a batch of \<open>B\<close>
  replacements of the immigration program or of the plain-drift rule that returns has
  advanced the clock by exactly \<open>B\<close>, and \<^verbatim>\<open>runBatch\<close> by \<open>batchSize\<close>.
\<close>

theorem clock_increment:
  "(replaceTree im g1 = Ok (im', h1) \<longrightarrow> stepCount im' = stepCount im + 1)
   \<and> (replaceTree_drift dr g2 = Ok (dr', h2) \<longrightarrow> stepCount dr' = stepCount dr + 1)
   \<and> (replaceTree_coexist co g3 = Some (Ok (co', h3)) \<longrightarrow> stepCount co' = stepCount co + 1)
   \<and> (replaceTree_sdx sx g4 = Ok (sx', h4) \<longrightarrow> stepCount sx' = stepCount sx + 1)
   \<and> (unit_draws g5 \<and> theForest co5 \<noteq> [] \<and> accepted co5 g5 j \<and> (\<forall>i<j. \<not> accepted co5 g5 i) \<longrightarrow>
        (\<exists>co''. replaceTree_coexist co5 g5 = Some (Ok (co'', \<lambda>k. g5 (k + (2 * j + 3))))
           \<and> stepCount co'' = stepCount co5 + 1))
   \<and> (forLoop 0 B (\<lambda>(st, g). replaceTree st g) (im6, g6) = Ok (im6', h6) \<longrightarrow>
        stepCount im6' = stepCount im6 + B)
   \<and> (forLoop 0 B (\<lambda>(st, g). replaceTree_drift st g) (dr7, g7) = Ok (dr7', h7) \<longrightarrow>
        stepCount dr7' = stepCount dr7 + B)
   \<and> (runBatch im8 g8 = Ok (im8', h8) \<longrightarrow> stepCount im8' = stepCount im8 + batchSize)"
  using replaceTree_clock [of im g1 im' h1] replaceTree_drift_clock [of dr g2 dr' h2]
    replaceTree_coexist_clock [of co g3 co' h3] replaceTree_sdx_clock [of sx g4 sx' h4]
    coexist_rejections_clock [of g5 co5 j] imm_loop_clock [of B im6 g6 im6' h6]
    drift_loop_clock [of B dr7 g7 dr7' h7] runBatch_clock [of im8 g8 im8' h8]
  by blast

theorem clock_increment_witness:
  "(\<exists>im' h. replaceTree sapling (\<lambda>n. 1 / 2) = Ok (im', h) \<and> stepCount im' = stepCount sapling + 1)
   \<and> (\<exists>dr' h. replaceTree_drift sapling (\<lambda>n. 1 / 2) = Ok (dr', h)
         \<and> stepCount dr' = stepCount sapling + 1)
   \<and> (\<exists>sx' h. replaceTree_sdx threeByThree (\<lambda>n. 1 / 2) = Ok (sx', h)
         \<and> stepCount sx' = stepCount threeByThree + 1)
   \<and> unit_draws rejectOnce \<and> theForest lastOlive \<noteq> []
   \<and> \<not> accepted lastOlive rejectOnce 0 \<and> accepted lastOlive rejectOnce 1
   \<and> (\<exists>co'. replaceTree_coexist lastOlive rejectOnce = Some (Ok (co', \<lambda>k. rejectOnce (k + 5)))
         \<and> stepCount co' = stepCount lastOlive + 1)
   \<and> (\<exists>im' h. forLoop 0 7 (\<lambda>(st, g). replaceTree st g) (sapling, \<lambda>n. 1 / 2) = Ok (im', h)
         \<and> stepCount im' = stepCount sapling + 7)
   \<and> (\<exists>dr' h. forLoop 0 7 (\<lambda>(st, g). replaceTree_drift st g) (sapling, \<lambda>n. 1 / 2) = Ok (dr', h)
         \<and> stepCount dr' = stepCount sapling + 7)
   \<and> (\<exists>im' h. runBatch sapling (\<lambda>n. 1 / 2) = Ok (im', h)
         \<and> stepCount im' = stepCount sapling + 40)"
proof -
  note u = unit_draws_half
  obtain a1 h1 where a: "replaceTree sapling (\<lambda>n. 1 / 2) = Ok (a1, h1)"
    using replaceTree_step [OF u sapling_facts(2,3,4)] by blast
  obtain a2 h2 where b: "replaceTree_drift sapling (\<lambda>n. 1 / 2) = Ok (a2, h2)"
    using replaceTree_drift_step [OF u sapling_facts(2)] by blast
  obtain a3 h3 where c: "replaceTree_sdx threeByThree (\<lambda>n. 1 / 2) = Ok (a3, h3)"
    using step_sdx(1) [OF threeByThree_wf(1) validNames_treeColorMap4 u refl refl refl] by blast
  have r: "accepted lastOlive rejectOnce 1 \<and> (\<forall>i<1. \<not> accepted lastOlive rejectOnce i)"
    using lastOlive_accepted(2,3) by simp
  obtain a6 h6 where d: "forLoop 0 7 (\<lambda>(st, g). replaceTree st g) (sapling, \<lambda>n. 1 / 2) = Ok (a6, h6)"
    using imm_run [OF u sapling_facts(2,3,4)] by blast
  obtain a7 h7 where e: "forLoop 0 7 (\<lambda>(st, g). replaceTree_drift st g) (sapling, \<lambda>n. 1 / 2) = Ok (a7, h7)"
    using drift_run [OF u sapling_facts(2)] by blast
  obtain s8 h8 where f0: "forLoop 0 batchSize (\<lambda>(st, g). replaceTree st g) (sapling, \<lambda>n. 1 / 2) = Ok (s8, h8)"
    using imm_run [OF u sapling_facts(2,3,4)] by blast
  then obtain a8 where f: "runBatch sapling (\<lambda>n. 1 / 2) = Ok (a8, h8)"
    by (simp add: runBatch_def)
  have A: "stepCount a1 = stepCount sapling + 1"
    by (rule clock_increment [THEN conjunct1, THEN mp, OF a])
  have B: "stepCount a2 = stepCount sapling + 1"
    by (rule clock_increment [THEN conjunct2, THEN conjunct1, THEN mp, OF b])
  have C: "stepCount a3 = stepCount threeByThree + 1"
    by (rule clock_increment [THEN conjunct2, THEN conjunct2, THEN conjunct2, THEN conjunct1, THEN mp, OF c])
  have r5: "unit_draws rejectOnce \<and> theForest lastOlive \<noteq> [] \<and> accepted lastOlive rejectOnce 1
      \<and> (\<forall>i<1. \<not> accepted lastOlive rejectOnce i)"
    using r lastOlive_facts(2,3) by simp
  have D: "\<exists>co'. replaceTree_coexist lastOlive rejectOnce = Some (Ok (co', \<lambda>k. rejectOnce (k + 5)))
         \<and> stepCount co' = stepCount lastOlive + 1"
    using clock_increment [THEN conjunct2, THEN conjunct2, THEN conjunct2, THEN conjunct2, THEN conjunct1, THEN mp, OF r5] by simp
  have E: "stepCount a6 = stepCount sapling + 7"
    by (rule clock_increment [THEN conjunct2, THEN conjunct2, THEN conjunct2, THEN conjunct2, THEN conjunct2, THEN conjunct1, THEN mp, OF d])
  have F: "stepCount a7 = stepCount sapling + 7"
    by (rule clock_increment [THEN conjunct2, THEN conjunct2, THEN conjunct2, THEN conjunct2, THEN conjunct2, THEN conjunct2, THEN conjunct1, THEN mp, OF e])
  have G: "stepCount a8 = stepCount sapling + 40"
    using clock_increment [THEN conjunct2, THEN conjunct2, THEN conjunct2, THEN conjunct2, THEN conjunct2, THEN conjunct2, THEN conjunct2, THEN mp, OF f] by (simp add: batchSize_def)
  show ?thesis
    using a b c d e f A B C D E F G lastOlive_facts(2,3) lastOlive_accepted(2,3) by blast
qed

end
